theory Spec2Isabelle
  imports Complex_Main "HOL-Library.Word" "HOL-Library.AList"
begin

section \<open>Raster data\<close>

text \<open>
  A \<open>Uint8ClampedArray\<close> is a list of bytes, four per pixel (R, G, B, A). A read beyond
  the end yields \<open>undefined\<close> in the source, for which both comparisons the code makes
  (\<open>< 128\<close> on the mask, \<open>> 0\<close> on the data) are false; a write beyond the end is
  dropped, as \<open>xs[i := v]\<close> does.
\<close>

type_synonym byte = "8 word"

text \<open>Storing an integral number into a \<open>Uint8ClampedArray\<close> clamps it to 255.\<close>

definition toUint8 :: "nat \<Rightarrow> byte" where
  "toUint8 n = of_nat (min n 255)"

text \<open>Mask logic of the source: \<open>mData[idx + 3] < 128\<close> means "erase this".\<close>

definition isHole :: "byte list \<Rightarrow> nat \<Rightarrow> bool" where
  "isHole mData idx \<longleftrightarrow> idx + 3 < length mData \<and> mData ! (idx + 3) < 128"

text \<open>Validity check of the source: \<open>data[nIdx + 3] > 0\<close>.\<close>

definition isValid :: "byte list \<Rightarrow> nat \<Rightarrow> bool" where
  "isValid data nIdx \<longleftrightarrow> nIdx + 3 < length data \<and> data ! (nIdx + 3) > 0"

section \<open>sharpDiffusion\<close>

subsection \<open>Init: the worklist, and clearing the hole\<close>

text \<open>The indices \<open>(y * width + x) * 4\<close> in the order of the two nested loops.\<close>

definition pixelIndices :: "nat \<Rightarrow> nat \<Rightarrow> nat list" where
  "pixelIndices width height =
     concat (map (\<lambda>y. map (\<lambda>x. (y * width + x) * 4) [0..<width]) [0..<height])"

text \<open>
  The worklist \<open>todoPixels\<close> holds pixel indices; the source overwrites an entry with
  \<open>-1\<close> once it is done, which is \<open>None\<close> here.
\<close>

fun initStep :: "byte list \<Rightarrow> bool \<Rightarrow> nat \<Rightarrow> byte list \<times> nat option list
    \<Rightarrow> byte list \<times> nat option list" where
  "initStep mData preserveContent idx (data, todoPixels) =
     (if isHole mData idx
      then (if preserveContent then data else data[idx + 3 := 0], todoPixels @ [Some idx])
      else (data, todoPixels))"

definition initFill :: "byte list \<Rightarrow> byte list \<Rightarrow> nat \<Rightarrow> nat \<Rightarrow> bool
    \<Rightarrow> byte list \<times> nat option list" where
  "initFill data mData width height preserveContent =
     fold (initStep mData preserveContent) (pixelIndices width height) (data, [])"

subsection \<open>One pass: scanning the neighbours\<close>

definition neighbors :: "int \<Rightarrow> int \<Rightarrow> (int \<times> int) list" where
  "neighbors x y =
     [(x, y - 1), (x, y + 1), (x - 1, y), (x + 1, y),
      (x - 1, y - 1), (x + 1, y - 1), (x - 1, y + 1), (x + 1, y + 1)]"

fun addNeighbor :: "byte list \<Rightarrow> nat \<Rightarrow> nat \<Rightarrow> int \<times> int \<Rightarrow> nat \<times> nat \<times> nat \<times> nat
    \<Rightarrow> nat \<times> nat \<times> nat \<times> nat" where
  "addNeighbor data width height (nx, ny) (r, g, b, count) =
     (if nx \<ge> 0 \<and> nx < int width \<and> ny \<ge> 0 \<and> ny < int height
      then (let nIdx = nat ((ny * int width + nx) * 4)
            in if isValid data nIdx
               then (r + unat (data ! nIdx), g + unat (data ! (nIdx + 1)),
                     b + unat (data ! (nIdx + 2)), count + 1)
               else (r, g, b, count))
      else (r, g, b, count))"

text \<open>
  \<open>Math.round(r / count)\<close> for a sum \<open>r\<close> of at most eight bytes and \<open>1 \<le> count \<le> 8\<close>:
  the quotient is rounded to the nearest integer, a half upwards. The double nearest to
  \<open>r / count\<close> lies on the same side of every half-integer as the quotient itself, so this
  is the integer \<open>(2 * r + count) div (2 * count)\<close>.
\<close>

definition roundDiv :: "nat \<Rightarrow> nat \<Rightarrow> nat" where
  "roundDiv r count = (2 * r + count) div (2 * count)"

text \<open>
  The colour a worklist pixel would get from the current data, \<open>None\<close> when it has no
  valid neighbour. (\<open>idx\<close> is a multiple of four, so \<open>idx / 4\<close> is exact.)
\<close>

definition fillColor :: "byte list \<Rightarrow> nat \<Rightarrow> nat \<Rightarrow> nat \<Rightarrow> (byte \<times> byte \<times> byte \<times> byte) option" where
  "fillColor data width height idx =
     (let pIdx = idx div 4;
          x = int (pIdx mod width);
          y = int (pIdx div width)
      in case fold (addNeighbor data width height) (neighbors x y) (0, 0, 0, 0) of
           (r, g, b, count) \<Rightarrow>
             if count > 0
             then Some (toUint8 (roundDiv r count), toUint8 (roundDiv g count),
                        toUint8 (roundDiv b count), toUint8 255)
             else None)"

text \<open>
  \<open>newFilled\<close> is a JavaScript \<open>Map\<close>: it iterates in insertion order and \<open>set\<close> on a key
  already present replaces the value in place, which is \<open>AList.update\<close>.
\<close>

fun scanStep :: "byte list \<Rightarrow> nat \<Rightarrow> nat \<Rightarrow> nat option
    \<Rightarrow> (nat \<times> byte \<times> byte \<times> byte \<times> byte) list \<Rightarrow> (nat \<times> byte \<times> byte \<times> byte \<times> byte) list" where
  "scanStep data width height None newFilled = newFilled"
| "scanStep data width height (Some idx) newFilled =
     (case fillColor data width height idx of
        None \<Rightarrow> newFilled
      | Some color \<Rightarrow> AList.update idx color newFilled)"

definition scanPass :: "byte list \<Rightarrow> nat \<Rightarrow> nat \<Rightarrow> nat option list
    \<Rightarrow> (nat \<times> byte \<times> byte \<times> byte \<times> byte) list" where
  "scanPass data width height todoPixels = fold (scanStep data width height) todoPixels []"

subsection \<open>One pass: committing the new colours\<close>

text \<open>\<open>todoPixels.indexOf(idx)\<close>: the first position holding the value, if any.\<close>

fun indexOf :: "'a list \<Rightarrow> 'a \<Rightarrow> nat option" where
  "indexOf [] v = None"
| "indexOf (x # xs) v = (if x = v then Some 0 else map_option Suc (indexOf xs v))"

definition markDone :: "nat option list \<Rightarrow> nat \<Rightarrow> nat option list" where
  "markDone todoPixels idx =
     (case indexOf todoPixels (Some idx) of
        None \<Rightarrow> todoPixels
      | Some listIdx \<Rightarrow> todoPixels[listIdx := None])"

fun commitStep :: "bool \<Rightarrow> nat \<times> byte \<times> byte \<times> byte \<times> byte
    \<Rightarrow> byte list \<times> nat option list \<times> nat \<Rightarrow> byte list \<times> nat option list \<times> nat" where
  "commitStep preserveContent (idx, c0, c1, c2, c3) (data, todoPixels, filledCount) =
     (data[idx := c0, idx + 1 := c1, idx + 2 := c2, idx + 3 := c3],
      if preserveContent then todoPixels else markDone todoPixels idx,
      filledCount + 1)"

definition commitPass :: "bool \<Rightarrow> (nat \<times> byte \<times> byte \<times> byte \<times> byte) list
    \<Rightarrow> byte list \<Rightarrow> nat option list \<Rightarrow> byte list \<times> nat option list \<times> nat" where
  "commitPass preserveContent newFilled data todoPixels =
     fold (commitStep preserveContent) newFilled (data, todoPixels, 0)"

subsection \<open>The pass loop\<close>

text \<open>
  The state of \<open>while (remaining > 0 && pass < maxPasses)\<close> is the data, the worklist,
  \<open>remaining\<close> and \<open>pass\<close>. Under \<open>preserveContent\<close> the counter \<open>remaining\<close> is left
  alone; otherwise it drops by the number of pixels filled and the loop is left by
  \<open>break\<close>, before \<open>pass++\<close>, when that number is zero.
\<close>

function diffusionLoop :: "nat \<Rightarrow> nat \<Rightarrow> nat \<Rightarrow> bool \<Rightarrow> byte list \<Rightarrow> nat option list \<Rightarrow> int \<Rightarrow> nat
    \<Rightarrow> byte list \<times> nat option list \<times> int \<times> nat" where
  "diffusionLoop width height maxPasses preserveContent data todoPixels remaining pass =
     (if remaining > 0 \<and> pass < maxPasses
      then (case commitPass preserveContent (scanPass data width height todoPixels) data todoPixels of
              (data', todoPixels', filledCount) \<Rightarrow>
                if preserveContent
                then diffusionLoop width height maxPasses preserveContent data' todoPixels'
                       remaining (pass + 1)
                else if filledCount = 0
                then (data', todoPixels', remaining - int filledCount, pass)
                else diffusionLoop width height maxPasses preserveContent data' todoPixels'
                       (remaining - int filledCount) (pass + 1))
      else (data, todoPixels, remaining, pass))"
  by pat_completeness auto
termination
  by (relation "measure (\<lambda>(width, height, maxPasses, preserveContent, data, todoPixels, remaining, pass).
        maxPasses - pass)") auto

text \<open>The whole run, with the final worklist and counters kept for inspection.\<close>

definition sharpDiffusionRun :: "byte list \<Rightarrow> byte list \<Rightarrow> nat \<Rightarrow> nat \<Rightarrow> nat \<Rightarrow> bool
    \<Rightarrow> byte list \<times> nat option list \<times> int \<times> nat" where
  "sharpDiffusionRun data mData width height maxPasses preserveContent =
     (case initFill data mData width height preserveContent of
        (data0, todoPixels) \<Rightarrow>
          diffusionLoop width height maxPasses preserveContent data0 todoPixels
            (int (length todoPixels)) 0)"

text \<open>\<open>sharpDiffusion\<close> mutates \<open>data\<close> in place; the model returns the mutated array.\<close>

definition sharpDiffusion :: "byte list \<Rightarrow> byte list \<Rightarrow> nat \<Rightarrow> nat \<Rightarrow> nat \<Rightarrow> bool \<Rightarrow> byte list" where
  "sharpDiffusion data mData width height maxPasses preserveContent =
     fst (sharpDiffusionRun data mData width height maxPasses preserveContent)"


section \<open>Canvases\<close>

text \<open>
  A decoded image and the bitmap of a canvas are a width, a height and the RGBA bytes in
  row order. The canvas operations the service calls belong to the browser; they are
  modelled on exact bytes (no premultiplied-alpha loss):
  \<^item> \<open>getImageData(0, 0, width, height)\<close> returns \<open>width * height * 4\<close> bytes, transparent
    black wherever the rectangle lies outside the bitmap;
  \<^item> \<open>drawImage(src, 0, 0)\<close> on a fresh (transparent) canvas copies the source unscaled
    to the origin, cropped to the canvas;
  \<^item> \<open>putImageData(d, 0, 0)\<close> with data of the size of the canvas replaces the bitmap.
\<close>

record image =
  pxWidth :: nat
  pxHeight :: nat
  pxData :: "byte list"

definition canvasByte :: "image \<Rightarrow> nat \<Rightarrow> nat \<Rightarrow> nat \<Rightarrow> byte" where
  "canvasByte c x y k =
     (if x < pxWidth c \<and> y < pxHeight c \<and> (y * pxWidth c + x) * 4 + k < length (pxData c)
      then pxData c ! ((y * pxWidth c + x) * 4 + k) else 0)"

definition getImageData :: "image \<Rightarrow> nat \<Rightarrow> nat \<Rightarrow> byte list" where
  "getImageData c width height =
     map (\<lambda>j. canvasByte c ((j div 4) mod width) ((j div 4) div width) (j mod 4))
       [0..<width * height * 4]"


definition putImageData :: "image \<Rightarrow> byte list \<Rightarrow> image" where
  "putImageData c d = c\<lparr>pxData := d\<rparr>"


section \<open>hierarchicalInpaint\<close>

text \<open>
  JavaScript numbers that are not integral are modelled as exact rationals (every double
  is one); the rounding of double arithmetic itself is not modelled. \<open>Math.random()\<close> is
  a stream of draws \<open>random 0\<close>, \<open>random 1\<close>, ... from \<open>[0, 1)\<close>.
\<close>

text \<open>
  Storing a number into a \<open>Uint8ClampedArray\<close> (ECMAScript \<open>ToUint8Clamp\<close>): clamp, then
  round to the nearest integer, a tie to the even one.
\<close>

definition toUint8Clamp :: "rat \<Rightarrow> byte" where
  "toUint8Clamp v =
     (if v \<le> 0 then 0
      else if v \<ge> 255 then 255
      else (let f = \<lfloor>v\<rfloor>
            in if of_int f + 1 / 2 < v then of_int (f + 1)
               else if v < of_int f + 1 / 2 then of_int f
               else if even f then of_int f
               else of_int (f + 1)))"

text \<open>Step 3 of a level: the upscaled guess replaces the hole pixels.\<close>

definition injectGuess :: "byte list \<Rightarrow> byte list \<Rightarrow> byte list \<Rightarrow> byte list" where
  "injectGuess guessData currentMaskData currentData =
     fold (\<lambda>i cur. if isHole currentMaskData i
                    then cur[i := guessData ! i, i + 1 := guessData ! (i + 1),
                             i + 2 := guessData ! (i + 2), i + 3 := 255]
                    else cur)
       (map (\<lambda>n. n * 4) [0..<(length guessData + 3) div 4]) currentData"

text \<open>One round of \<open>scales.forEach\<close>; \<open>Math.ceil(width * scale)\<close> is exact.\<close>

fun pyramidLevel :: "(bool \<Rightarrow> image \<Rightarrow> nat \<Rightarrow> nat \<Rightarrow> byte list) \<Rightarrow> image \<Rightarrow> image \<Rightarrow> nat \<Rightarrow> nat
    \<Rightarrow> rat \<times> nat \<Rightarrow> image option \<Rightarrow> image option" where
  "pyramidLevel scaled ctxCanvas maskCanvas width height (scale, index) lastCanvas =
     (let sw = nat \<lceil>of_nat width * scale\<rceil>;
          sh = nat \<lceil>of_nat height * scale\<rceil>;
          sCanvas = \<lparr>pxWidth = sw, pxHeight = sh, pxData = scaled False ctxCanvas sw sh\<rparr>;
          mCanvas = \<lparr>pxWidth = sw, pxHeight = sh, pxData = scaled False maskCanvas sw sh\<rparr>;
          sCanvas1 =
            (case lastCanvas of
               None \<Rightarrow> sCanvas
             | Some lc \<Rightarrow>
                 (let guessCanvas = \<lparr>pxWidth = sw, pxHeight = sh, pxData = scaled True lc sw sh\<rparr>;
                      guessData = getImageData guessCanvas sw sh;
                      currentData = getImageData sCanvas sw sh;
                      currentMaskData = getImageData mCanvas sw sh
                  in putImageData sCanvas (injectGuess guessData currentMaskData currentData)));
          imgD = getImageData sCanvas1 sw sh;
          maskD = getImageData mCanvas sw sh;
          isBaseLayer = (index = 0);
          passes = (if isBaseLayer then 50 else 15)
      in Some (putImageData sCanvas1 (sharpDiffusion imgD maskD sw sh passes (\<not> isBaseLayer))))"

definition scales :: "(rat \<times> nat) list" where
  "scales = [(1 / 8, 0), (1 / 4, 1), (1 / 2, 2), (1, 3)]"

definition pyramid :: "(bool \<Rightarrow> image \<Rightarrow> nat \<Rightarrow> nat \<Rightarrow> byte list) \<Rightarrow> image \<Rightarrow> image \<Rightarrow> nat \<Rightarrow> nat
    \<Rightarrow> image option" where
  "pyramid scaled ctxCanvas maskCanvas width height =
     fold (pyramidLevel scaled ctxCanvas maskCanvas width height) scales None"

text \<open>
  Step 5, the final composite with noise. The second component counts the draws taken
  from \<open>Math.random()\<close> so far: one per hole pixel, used for its three channels.
\<close>

definition addNoise :: "byte \<Rightarrow> rat \<Rightarrow> byte" where
  "addNoise s noise = toUint8Clamp (max 0 (min 255 (of_nat (unat s) + noise)))"

fun textureStep :: "byte list \<Rightarrow> byte list \<Rightarrow> (nat \<Rightarrow> rat) \<Rightarrow> nat \<Rightarrow> byte list \<times> nat
    \<Rightarrow> byte list \<times> nat" where
  "textureStep smoothData mData random i (finalData, drawn) =
     (if isHole mData i
      then (let noise = (random drawn - 1 / 2) * 12
            in (finalData[i := addNoise (smoothData ! i) noise,
                          i + 1 := addNoise (smoothData ! (i + 1)) noise,
                          i + 2 := addNoise (smoothData ! (i + 2)) noise,
                          i + 3 := 255],
                drawn + 1))
      else (finalData, drawn))"

definition finalComposite :: "byte list \<Rightarrow> byte list \<Rightarrow> (nat \<Rightarrow> rat) \<Rightarrow> byte list \<Rightarrow> byte list" where
  "finalComposite smoothData mData random finalData =
     fst (fold (textureStep smoothData mData random)
            (map (\<lambda>n. n * 4) [0..<(length finalData + 3) div 4]) (finalData, 0))"

definition hierarchicalInpaint :: "(bool \<Rightarrow> image \<Rightarrow> nat \<Rightarrow> nat \<Rightarrow> byte list) \<Rightarrow> (nat \<Rightarrow> rat)
    \<Rightarrow> image \<Rightarrow> image \<Rightarrow> nat \<Rightarrow> nat \<Rightarrow> image" where
  "hierarchicalInpaint scaled random ctxCanvas maskCanvas width height =
     (case pyramid scaled ctxCanvas maskCanvas width height of
        None \<Rightarrow> ctxCanvas
      | Some lastCanvas \<Rightarrow>
          (let finalData = getImageData ctxCanvas width height;
               smoothData = getImageData lastCanvas width height;
               mData = getImageData maskCanvas width height
           in putImageData ctxCanvas (finalComposite smoothData mData random finalData)))"

section \<open>performInpainting\<close>




section \<open>Notions used in the statements\<close>

text \<open>The worklist entries not yet marked done.\<close>

fun pending :: "nat option list \<Rightarrow> nat list" where
  "pending [] = []"
| "pending (None # t) = pending t"
| "pending (Some i # t) = i # pending t"

text \<open>A neighbour position that the scan counts: inside the grid and valid.\<close>

definition validAt :: "byte list \<Rightarrow> nat \<Rightarrow> nat \<Rightarrow> int \<times> int \<Rightarrow> bool" where
  "validAt data width height n \<longleftrightarrow>
     (case n of (nx, ny) \<Rightarrow> nx \<ge> 0 \<and> nx < int width \<and> ny \<ge> 0 \<and> ny < int height
        \<and> isValid data (nat ((ny * int width + nx) * 4)))"


text \<open>
  The number of draws of \<open>Math.random()\<close> taken before pixel \<open>p\<close> in the final composite
  (one per earlier hole pixel), and the noise sample of pixel \<open>p\<close>.
\<close>

definition drawIndex :: "byte list \<Rightarrow> nat \<Rightarrow> nat" where
  "drawIndex mData p = length (filter (isHole mData) (map (\<lambda>n. n * 4) [0..<p]))"

definition noiseAt :: "(nat \<Rightarrow> rat) \<Rightarrow> byte list \<Rightarrow> nat \<Rightarrow> rat" where
  "noiseAt random mData p = (random (drawIndex mData p) - 1 / 2) * 12"

text \<open>
  Two buffers that show the same picture: equal alpha at every pixel, and equal R, G, B
  at every pixel whose alpha is not 0.
\<close>

definition sameVisible :: "byte list \<Rightarrow> byte list \<Rightarrow> bool" where
  "sameVisible d1 d2 \<longleftrightarrow>
     length d1 = length d2 \<and>
     (\<forall>p. p * 4 + 3 < length d1 \<longrightarrow>
        d1 ! (p * 4 + 3) = d2 ! (p * 4 + 3) \<and>
        (d1 ! (p * 4 + 3) \<noteq> 0 \<longrightarrow>
           d1 ! (p * 4) = d2 ! (p * 4) \<and> d1 ! (p * 4 + 1) = d2 ! (p * 4 + 1) \<and>
           d1 ! (p * 4 + 2) = d2 ! (p * 4 + 2)))"

text \<open>
  Pixels \<open>p\<close> and \<open>q\<close> (numbered in row order) are 8-neighbours; and a pixel is connected
  to a keep pixel through a chain of 8-neighbour hole pixels.
\<close>

definition adjacent8 :: "nat \<Rightarrow> nat \<Rightarrow> nat \<Rightarrow> bool" where
  "adjacent8 width p q \<longleftrightarrow>
     p \<noteq> q \<and> \<bar>int (p mod width) - int (q mod width)\<bar> \<le> 1
           \<and> \<bar>int (p div width) - int (q div width)\<bar> \<le> 1"

inductive reachesKeep :: "byte list \<Rightarrow> nat \<Rightarrow> nat \<Rightarrow> nat \<Rightarrow> bool"
  for mData :: "byte list" and width :: nat and height :: nat where
  keep_neighbour:
    "\<lbrakk>p < width * height; q < width * height; adjacent8 width p q; \<not> isHole mData (q * 4)\<rbrakk>
     \<Longrightarrow> reachesKeep mData width height p"
| hole_neighbour:
    "\<lbrakk>p < width * height; q < width * height; adjacent8 width p q; isHole mData (q * 4);
      reachesKeep mData width height q\<rbrakk>
     \<Longrightarrow> reachesKeep mData width height p"

code_pred reachesKeep .

text \<open>
  Every pixel within \<open>k\<close> king moves of pixel \<open>q\<close> has a non-zero alpha in the buffer.
\<close>

definition coveredWithin :: "byte list \<Rightarrow> nat \<Rightarrow> nat \<Rightarrow> nat \<Rightarrow> nat \<Rightarrow> bool" where
  "coveredWithin data width height q k \<longleftrightarrow>
     (\<forall>x<width. \<forall>y<height.
        \<bar>int x - int (q mod width)\<bar> \<le> int k \<and> \<bar>int y - int (q div width)\<bar> \<le> int k
        \<longrightarrow> data ! ((y * width + x) * 4 + 3) \<noteq> 0)"

section \<open>Properties of the fill\<close>

subsection \<open>The pixel indices\<close>

lemma pixelIndices_eq: "pixelIndices w h = map (\<lambda>p. p * 4) [0..<h * w]"
proof (induction h)
  case 0
  show ?case by (simp add: pixelIndices_def)
next
  case (Suc h)
  have row: "map (\<lambda>x. (h * w + x) * 4) [0..<w] = map (\<lambda>p. p * 4) [h * w..<h * w + w]"
    by (rule nth_equalityI) (simp_all add: algebra_simps)
  have "pixelIndices w (Suc h) = pixelIndices w h @ map (\<lambda>x. (h * w + x) * 4) [0..<w]"
    by (simp add: pixelIndices_def)
  also have "\<dots> = map (\<lambda>p. p * 4) ([0..<h * w] @ [h * w..<h * w + w])"
    by (simp only: Suc row map_append)
  also have "[0..<h * w] @ [h * w..<h * w + w] = [0..<Suc h * w]"
    using upt_add_eq_append [of 0 "h * w" w] by (simp add: add.commute)
  finally show ?case .
qed

lemma set_pixelIndices: "set (pixelIndices w h) = {p * 4 |p. p < w * h}"
  by (auto simp: pixelIndices_eq mult.commute)

lemma distinct_pixelIndices: "distinct (pixelIndices w h)"
  by (simp add: pixelIndices_eq distinct_map inj_on_def)

subsection \<open>Init, the worklist and the scan\<close>

lemma initFold_todo:
  "snd (fold (initStep m pres) idxs (d, t)) = t @ map Some (filter (isHole m) idxs)"
  by (induction idxs arbitrary: d t) auto

lemma initFold_length: "length (fst (fold (initStep m pres) idxs (d, t))) = length d"
  by (induction idxs arbitrary: d t) auto

lemma initFold_nth:
  "j < length d \<Longrightarrow> fst (fold (initStep m pres) idxs (d, t)) ! j =
     (if \<not> pres \<and> (\<exists>idx\<in>set idxs. isHole m idx \<and> j = idx + 3) then 0 else d ! j)"
  by (induction idxs arbitrary: d t) (auto simp: nth_list_update)


lemma initFill_todo:
  "snd (initFill d m w h pres) = map Some (filter (isHole m) (pixelIndices w h))"
  by (simp add: initFill_def initFold_todo)

lemma initFill_length: "length (fst (initFill d m w h pres)) = length d"
  by (simp add: initFill_def initFold_length)

lemma initFill_nth:
  "j < length d \<Longrightarrow> fst (initFill d m w h pres) ! j =
     (if \<not> pres \<and> (\<exists>idx\<in>set (pixelIndices w h). isHole m idx \<and> j = idx + 3) then 0 else d ! j)"
  by (simp add: initFill_def initFold_nth)


lemma set_pending: "set (pending t) = {i. Some i \<in> set t}"
  by (induction t rule: pending.induct) auto

lemma pending_map_Some: "pending (map Some xs) = xs"
  by (induction xs) auto

lemma markDone_Cons:
  "markDone (x # xs) k = (if x = Some k then None # xs else x # markDone xs k)"
  by (auto simp: markDone_def split: option.splits)

lemma markDone_Nil: "markDone [] k = []"
  by (simp add: markDone_def)

lemma pending_markDone: "pending (markDone t k) = remove1 k (pending t)"
  by (induction t rule: pending.induct) (auto simp: markDone_Cons markDone_Nil)

lemma length_markDone: "length (markDone t k) = length t"
  by (induction t) (auto simp: markDone_Cons markDone_Nil)

lemma in_set_update: "x \<in> set (AList.update k v al) \<Longrightarrow> x = (k, v) \<or> x \<in> set al"
  by (induction al) (auto split: if_splits)

lemma scanFold_keys:
  "fst ` set (fold (scanStep d w h) t nf) =
     fst ` set nf \<union> {i. Some i \<in> set t \<and> fillColor d w h i \<noteq> None}"
proof (induction t arbitrary: nf)
  case Nil
  show ?case by simp
next
  case (Cons e t)
  show ?case
  proof (cases e)
    case None
    then show ?thesis using Cons by simp
  next
    case (Some i)
    show ?thesis
    proof (cases "fillColor d w h i")
      case None
      then show ?thesis using Some Cons by auto
    next
      case (Some c)
      then show ?thesis using \<open>e = Some i\<close> Cons [of "AList.update i c nf"]
        by (cases c) (auto simp: dom_update)
    qed
  qed
qed

lemma scanFold_distinct:
  "distinct (map fst nf) \<Longrightarrow> distinct (map fst (fold (scanStep d w h) t nf))"
proof (induction t arbitrary: nf)
  case Nil
  then show ?case by simp
next
  case (Cons e t)
  then show ?case
    by (cases e) (auto simp: distinct_update split: option.splits)
qed

lemma scanFold_vals:
  "\<forall>x\<in>set nf. fillColor d w h (fst x) = Some (snd x) \<Longrightarrow>
   \<forall>x\<in>set (fold (scanStep d w h) t nf). fillColor d w h (fst x) = Some (snd x)"
proof (induction t arbitrary: nf)
  case Nil
  then show ?case by simp
next
  case (Cons e t)
  show ?case
  proof (cases e)
    case None
    then show ?thesis using Cons by simp
  next
    case (Some i)
    show ?thesis
    proof (cases "fillColor d w h i")
      case None
      then show ?thesis using Some Cons by auto
    next
      case (Some c)
      have "\<forall>x\<in>set (AList.update i c nf). fillColor d w h (fst x) = Some (snd x)"
        using Cons.prems Some by (auto dest!: in_set_update)
      from Cons.IH [OF this] show ?thesis using \<open>e = Some i\<close> Some by simp
    qed
  qed
qed

lemma scanPass_keys:
  "fst ` set (scanPass d w h t) = {i. Some i \<in> set t \<and> fillColor d w h i \<noteq> None}"
  by (simp add: scanPass_def scanFold_keys)

lemma scanPass_distinct: "distinct (map fst (scanPass d w h t))"
  by (simp add: scanPass_def scanFold_distinct)

lemma scanPass_vals:
  "x \<in> set (scanPass d w h t) \<Longrightarrow> fillColor d w h (fst x) = Some (snd x)"
  using scanFold_vals [of "[]" d w h t] by (simp add: scanPass_def)

subsection \<open>The commit\<close>

lemma commitFold_count:
  "snd (snd (fold (commitStep pres) nf (d, t, n))) = n + length nf"
  by (induction nf arbitrary: d t n) auto

lemma commitFold_length:
  "length (fst (fold (commitStep pres) nf (d, t, n))) = length d"
  by (induction nf arbitrary: d t n) auto

lemma commitFold_untouched:
  "\<forall>x\<in>set nf. j < fst x \<or> fst x + 3 < j \<Longrightarrow>
   fst (fold (commitStep pres) nf (d, t, n)) ! j = d ! j"
proof (induction nf arbitrary: d t n)
  case Nil
  show ?case by simp
next
  case (Cons x nf)
  obtain k c0 c1 c2 c3 where x: "x = (k, c0, c1, c2, c3)" by (cases x) auto
  have "j < k \<or> k + 3 < j" using Cons.prems x by auto
  then have "d[k := c0, k + 1 := c1, k + 2 := c2, k + 3 := c3] ! j = d ! j" by auto
  moreover have "\<forall>x\<in>set nf. j < fst x \<or> fst x + 3 < j" using Cons.prems by simp
  ultimately show ?case using Cons.IH x by simp
qed

lemma commitFold_written:
  assumes "distinct (map fst nf)" and "\<forall>x\<in>set nf. 4 dvd fst x"
    and "(k, c0, c1, c2, c3) \<in> set nf" and "k + 3 < length d"
  shows "fst (fold (commitStep pres) nf (d, t, n)) ! k = c0
       \<and> fst (fold (commitStep pres) nf (d, t, n)) ! (k + 1) = c1
       \<and> fst (fold (commitStep pres) nf (d, t, n)) ! (k + 2) = c2
       \<and> fst (fold (commitStep pres) nf (d, t, n)) ! (k + 3) = c3"
  using assms
proof (induction nf arbitrary: d t n)
  case Nil
  then show ?case by simp
next
  case (Cons x nf)
  obtain k' e0 e1 e2 e3 where x: "x = (k', e0, e1, e2, e3)" by (cases x) auto
  let ?d = "d[k' := e0, k' + 1 := e1, k' + 2 := e2, k' + 3 := e3]"
  let ?t = "if pres then t else markDone t k'"
  have step: "fold (commitStep pres) (x # nf) (d, t, n) = fold (commitStep pres) nf (?d, ?t, n + 1)"
    by (simp add: x)
  show ?case
  proof (cases "(k, c0, c1, c2, c3) \<in> set nf")
    case True
    have "k + 3 < length ?d" using Cons.prems by simp
    with Cons.IH [of ?d ?t "n + 1"] Cons.prems True show ?thesis
      unfolding step by simp
  next
    case False
    then have eq: "k' = k" "e0 = c0" "e1 = c1" "e2 = c2" "e3 = c3"
      using Cons.prems x by auto
    have far: "\<forall>y\<in>set nf. k + 3 < fst y \<or> fst y + 3 < k"
    proof
      fix y assume y: "y \<in> set nf"
      then have "fst y \<noteq> k" using Cons.prems(1) x eq by auto
      moreover have "4 dvd fst y" "4 dvd k" using Cons.prems(2) y x eq by auto
      ultimately show "k + 3 < fst y \<or> fst y + 3 < k" by presburger
    qed
    have u: "fst (fold (commitStep pres) nf (?d, ?t, n + 1)) ! (k + c) = ?d ! (k + c)" if "c \<le> 3" for c
      by (rule commitFold_untouched) (use far that in auto)
    have v: "?d ! k = c0" "?d ! (k + 1) = c1" "?d ! (k + 2) = c2" "?d ! (k + 3) = c3"
      using Cons.prems(4) eq by simp_all
    show ?thesis unfolding step using u [of 0] u [of 1] u [of 2] u [of 3] v by simp
  qed
qed

lemma commitFold_todo_preserve:
  "fst (snd (fold (commitStep True) nf (d, t, n))) = t"
  by (induction nf arbitrary: d t n) auto

lemma commitFold_pending:
  "pending (fst (snd (fold (commitStep False) nf (d, t, n)))) = fold remove1 (map fst nf) (pending t)"
  by (induction nf arbitrary: d t n) (auto simp: pending_markDone)

lemma commitFold_todo_length:
  "length (fst (snd (fold (commitStep pres) nf (d, t, n)))) = length t"
  by (induction nf arbitrary: d t n) (auto simp: length_markDone)

lemma fold_remove1_set:
  "distinct xs \<Longrightarrow> set (fold remove1 ks xs) = set xs - set ks"
  by (induction ks arbitrary: xs) auto

lemma fold_remove1_distinct:
  "distinct xs \<Longrightarrow> distinct (fold remove1 ks xs)"
  by (induction ks arbitrary: xs) auto

lemma fold_remove1_length:
  "distinct ks \<Longrightarrow> set ks \<subseteq> set xs \<Longrightarrow> length (fold remove1 ks xs) + length ks = length xs"
proof (induction ks arbitrary: xs)
  case Nil
  show ?case by simp
next
  case (Cons k ks)
  have "set ks \<subseteq> set (remove1 k xs)"
  proof
    fix x assume "x \<in> set ks"
    then have "x \<noteq> k" "x \<in> set xs" using Cons.prems by auto
    then show "x \<in> set (remove1 k xs)" by (simp add: in_set_remove1)
  qed
  then have "length (fold remove1 ks (remove1 k xs)) + length ks = length (remove1 k xs)"
    using Cons by simp
  moreover have "k \<in> set xs" using Cons.prems by simp
  then have "length (remove1 k xs) + 1 = length xs"
    by (simp add: length_remove1) (metis One_nat_def Suc_pred length_pos_if_in_set)
  ultimately show ?case by simp
qed

subsection \<open>One pass, and the loop\<close>

declare diffusionLoop.simps [simp del]

lemma fold_remove1_subset: "set (fold remove1 ks xs) \<subseteq> set xs"
proof (induction ks arbitrary: xs)
  case Nil
  show ?case by simp
next
  case (Cons k ks)
  have "set (fold remove1 ks (remove1 k xs)) \<subseteq> set (remove1 k xs)" by (rule Cons)
  also have "\<dots> \<subseteq> set xs" by (rule set_remove1_subset)
  finally show ?case by simp
qed

lemma pass_count:
  "commitPass pres (scanPass d w h t) d t = (d', t', fc) \<Longrightarrow> fc = length (scanPass d w h t)"
  using commitFold_count [of pres "scanPass d w h t" d t 0] by (simp add: commitPass_def)

lemma pass_length:
  "commitPass pres (scanPass d w h t) d t = (d', t', fc) \<Longrightarrow> length d' = length d \<and> length t' = length t"
  using commitFold_length [of pres "scanPass d w h t" d t 0]
    commitFold_todo_length [of pres "scanPass d w h t" d t 0] by (simp add: commitPass_def)

lemma pass_idle:
  assumes "commitPass pres (scanPass d w h t) d t = (d', t', fc)" and "fc = 0"
  shows "d' = d \<and> t' = t \<and> scanPass d w h t = []"
proof -
  have "scanPass d w h t = []" using pass_count [OF assms(1)] assms(2) by simp
  then show ?thesis using assms(1) by (simp add: commitPass_def)
qed

lemma pass_untouched:
  assumes "commitPass pres (scanPass d w h t) d t = (d', t', fc)"
    and "\<forall>i. Some i \<in> set t \<and> fillColor d w h i \<noteq> None \<longrightarrow> j < i \<or> i + 3 < j"
  shows "d' ! j = d ! j"
proof -
  have "\<forall>x\<in>set (scanPass d w h t). j < fst x \<or> fst x + 3 < j"
  proof
    fix x assume "x \<in> set (scanPass d w h t)"
    then have "fst x \<in> fst ` set (scanPass d w h t)" by (rule imageI)
    then have "Some (fst x) \<in> set t \<and> fillColor d w h (fst x) \<noteq> None"
      unfolding scanPass_keys by simp
    then show "j < fst x \<or> fst x + 3 < j" using assms(2) by blast
  qed
  from commitFold_untouched [OF this, of pres d t 0] assms(1) show ?thesis
    by (simp add: commitPass_def)
qed

lemma pass_keep:
  assumes "commitPass pres (scanPass d w h t) d t = (d', t', fc)"
    and "\<forall>i. Some i \<in> set t \<longrightarrow> 4 dvd i" and "4 dvd k"
    and "Some k \<notin> set t \<or> fillColor d w h k = None" and "c \<le> 3"
  shows "d' ! (k + c) = d ! (k + c)"
proof (rule pass_untouched [OF assms(1)], intro allI impI)
  fix i assume i: "Some i \<in> set t \<and> fillColor d w h i \<noteq> None"
  then have "i \<noteq> k" using assms(4) by auto
  moreover have "4 dvd i" using i assms(2) by simp
  ultimately show "k + c < i \<or> i + 3 < k + c" using assms(3,5) by presburger
qed

lemma pass_written:
  assumes "commitPass pres (scanPass d w h t) d t = (d', t', fc)"
    and "\<forall>i. Some i \<in> set t \<longrightarrow> 4 dvd i"
    and "Some k \<in> set t" and "fillColor d w h k = Some (c0, c1, c2, c3)" and "k + 3 < length d"
  shows "d' ! k = c0 \<and> d' ! (k + 1) = c1 \<and> d' ! (k + 2) = c2 \<and> d' ! (k + 3) = c3"
proof -
  let ?nf = "scanPass d w h t"
  have "k \<in> fst ` set ?nf" unfolding scanPass_keys using assms(3,4) by simp
  then obtain x where x: "x \<in> set ?nf" "fst x = k" by auto
  then have "snd x = (c0, c1, c2, c3)" using scanPass_vals [OF x(1)] assms(4) by simp
  then have mem: "(k, c0, c1, c2, c3) \<in> set ?nf" using x by (cases x) auto
  have dv: "\<forall>x\<in>set ?nf. 4 dvd fst x"
  proof
    fix y assume "y \<in> set ?nf"
    then have "fst y \<in> fst ` set ?nf" by (rule imageI)
    then show "4 dvd fst y" unfolding scanPass_keys using assms(2) by simp
  qed
  from commitFold_written [OF scanPass_distinct dv mem assms(5), of pres t 0] assms(1)
  show ?thesis by (simp add: commitPass_def)
qed

lemma pass_todo_preserve:
  "commitPass True (scanPass d w h t) d t = (d', t', fc) \<Longrightarrow> t' = t"
  using commitFold_todo_preserve [of "scanPass d w h t" d t 0] by (simp add: commitPass_def)

lemma pass_pending:
  assumes "commitPass False (scanPass d w h t) d t = (d', t', fc)" and "distinct (pending t)"
  shows "distinct (pending t')"
    and "set (pending t') = {i \<in> set (pending t). fillColor d w h i = None}"
    and "length (pending t') + fc = length (pending t)"
proof -
  let ?nf = "scanPass d w h t"
  have p: "pending t' = fold remove1 (map fst ?nf) (pending t)"
    using commitFold_pending [of ?nf d t 0] assms(1) by (simp add: commitPass_def)
  have keys: "set (map fst ?nf) = {i. Some i \<in> set t \<and> fillColor d w h i \<noteq> None}"
    using scanPass_keys [of d w h t] by simp
  show "distinct (pending t')" unfolding p by (rule fold_remove1_distinct [OF assms(2)])
  show "set (pending t') = {i \<in> set (pending t). fillColor d w h i = None}"
    unfolding p fold_remove1_set [OF assms(2)] keys
    by (auto simp: set_pending simp del: not_None_eq split_paired_All split_paired_Ex)
  have "set (map fst ?nf) \<subseteq> set (pending t)" unfolding keys by (auto simp: set_pending)
  from fold_remove1_length [OF scanPass_distinct this]
  show "length (pending t') + fc = length (pending t)"
    unfolding p using pass_count [OF assms(1)] by simp
qed

lemma pass_todo_subset:
  assumes "commitPass pres (scanPass d w h t) d t = (d', t', fc)" and "Some i \<in> set t'"
  shows "Some i \<in> set t"
proof (cases pres)
  case True
  then show ?thesis using assms pass_todo_preserve [of d w h t d' t' fc] by simp
next
  case False
  have "pending t' = fold remove1 (map fst (scanPass d w h t)) (pending t)"
    using commitFold_pending [of "scanPass d w h t" d t 0] assms(1) False by (simp add: commitPass_def)
  then have "set (pending t') \<subseteq> set (pending t)" by (simp add: fold_remove1_subset)
  then show ?thesis using assms(2) by (auto simp: set_pending)
qed

lemma diffusionLoop_stop:
  "\<not> (r > 0 \<and> p < maxP) \<Longrightarrow> diffusionLoop w h maxP pres d t r p = (d, t, r, p)"
  by (subst diffusionLoop.simps) auto

lemma diffusionLoop_break:
  "\<lbrakk>r > 0; p < maxP; commitPass pres (scanPass d w h t) d t = (d', t', fc); \<not> pres; fc = 0\<rbrakk>
   \<Longrightarrow> diffusionLoop w h maxP pres d t r p = (d', t', r, p)"
  by (subst diffusionLoop.simps) auto

lemma diffusionLoop_next:
  "\<lbrakk>r > 0; p < maxP; commitPass pres (scanPass d w h t) d t = (d', t', fc); pres \<or> fc \<noteq> 0\<rbrakk>
   \<Longrightarrow> diffusionLoop w h maxP pres d t r p =
       diffusionLoop w h maxP pres d' t' (if pres then r else r - int fc) (p + 1)"
  by (subst diffusionLoop.simps) auto

lemma diffusionLoop_rule:
  assumes "I d t r p"
    and step: "\<And>d t r p d' t' fc. \<lbrakk>I d t r p; 0 < r; p < maxP;
           commitPass pres (scanPass d w h t) d t = (d', t', fc); pres \<or> fc \<noteq> 0\<rbrakk>
         \<Longrightarrow> I d' t' (if pres then r else r - int fc) (p + 1)"
  shows "case diffusionLoop w h maxP pres d t r p of
           (d', t', r', p') \<Rightarrow> I d' t' r' p' \<and> (r' \<le> 0 \<or> maxP \<le> p' \<or> (\<not> pres \<and> scanPass d' w h t' = []))"
  using assms(1)
proof (induction "maxP - p" arbitrary: d t r p)
  case 0
  then have "diffusionLoop w h maxP pres d t r p = (d, t, r, p)"
    by (simp add: diffusionLoop_stop)
  then show ?case using 0 by simp
next
  case (Suc n)
  show ?case
  proof (cases "r > 0 \<and> p < maxP")
    case False
    then have "diffusionLoop w h maxP pres d t r p = (d, t, r, p)"
      by (rule diffusionLoop_stop)
    then show ?thesis using False Suc.prems by auto
  next
    case True
    obtain d' t' fc where c: "commitPass pres (scanPass d w h t) d t = (d', t', fc)"
      by (cases "commitPass pres (scanPass d w h t) d t") auto
    show ?thesis
    proof (cases "pres \<or> fc \<noteq> 0")
      case False
      have "diffusionLoop w h maxP pres d t r p = (d', t', r, p)"
        using True c False by (intro diffusionLoop_break) auto
      then show ?thesis using False pass_idle [OF c] Suc.prems by simp
    next
      case go: True
      have I': "I d' t' (if pres then r else r - int fc) (p + 1)"
        using step [OF Suc.prems _ _ c go] True by simp
      have n: "n = maxP - (p + 1)" using Suc.hyps(2) by simp
      have "diffusionLoop w h maxP pres d t r p =
            diffusionLoop w h maxP pres d' t' (if pres then r else r - int fc) (p + 1)"
        using True c go by (intro diffusionLoop_next) auto
      with Suc.hyps(1) [OF n I'] show ?thesis by simp
    qed
  qed
qed

subsection \<open>Valid neighbours; a buffer that is all hole\<close>

lemma addNeighbor_count:
  "snd (snd (snd (fold (addNeighbor d w h) ns acc))) =
     snd (snd (snd acc)) + length (filter (validAt d w h) ns)"
proof (induction ns arbitrary: acc)
  case Nil
  show ?case by simp
next
  case (Cons n ns)
  obtain nx ny where n: "n = (nx, ny)" by (cases n) auto
  obtain r g b c where acc: "acc = (r, g, b, c)" by (cases acc) auto
  show ?case unfolding n acc
    by (simp add: Cons validAt_def Let_def)
qed

lemma fillColor_None_iff:
  "fillColor d w h idx = None \<longleftrightarrow>
     (\<forall>n\<in>set (neighbors (int ((idx div 4) mod w)) (int ((idx div 4) div w))). \<not> validAt d w h n)"
proof -
  let ?ns = "neighbors (int ((idx div 4) mod w)) (int ((idx div 4) div w))"
  obtain r g b c where f: "fold (addNeighbor d w h) ?ns (0, 0, 0, 0) = (r, g, b, c)"
    by (cases "fold (addNeighbor d w h) ?ns (0, 0, 0, 0)") auto
  have "c = length (filter (validAt d w h) ?ns)"
    using addNeighbor_count [of d w h ?ns "(0, 0, 0, 0)"] f by simp
  then have "c = 0 \<longleftrightarrow> (\<forall>n\<in>set ?ns. \<not> validAt d w h n)"
    by (simp add: filter_empty_conv)
  then show ?thesis using f by (auto simp: fillColor_def Let_def)
qed

lemma fillColor_alpha:
  "fillColor d w h idx = Some (c0, c1, c2, c3) \<Longrightarrow> c3 = 255"
  by (auto simp: fillColor_def Let_def toUint8_def split: prod.splits if_splits)

lemma scanPass_Nil_iff:
  "scanPass d w h t = [] \<longleftrightarrow> (\<forall>i. Some i \<in> set t \<longrightarrow> fillColor d w h i = None)"
proof -
  have "scanPass d w h t = [] \<longleftrightarrow> fst ` set (scanPass d w h t) = {}" by simp
  also have "\<dots> \<longleftrightarrow> (\<forall>i. Some i \<in> set t \<longrightarrow> fillColor d w h i = None)"
    unfolding scanPass_keys by (auto simp del: not_None_eq split_paired_All split_paired_Ex)
  finally show ?thesis .
qed

lemma pixel_in_grid: "x < w \<Longrightarrow> y < h \<Longrightarrow> y * w + x < w * (h::nat)"
proof -
  assume xy: "x < w" "y < h"
  have "y * w + x < y * w + w" using xy by simp
  also have "\<dots> = (y + 1) * w" by simp
  also have "\<dots> \<le> h * w" using xy by (intro mult_le_mono1) simp
  finally show ?thesis by (simp add: mult.commute)
qed

lemma validAt_nat:
  "validAt d w h (int x, int y) \<longleftrightarrow> x < w \<and> y < h \<and> isValid d ((y * w + x) * 4)"
proof -
  have "nat ((int y * int w + int x) * 4) = (y * w + x) * 4"
    by (simp add: nat_mult_distrib nat_add_distrib flip: of_nat_mult of_nat_add)
  then show ?thesis unfolding validAt_def prod.case by auto
qed

lemma validAt_cases:
  assumes "validAt d w h n"
  obtains x y where "n = (int x, int y)" "x < w" "y < h" "isValid d ((y * w + x) * 4)"
proof -
  obtain nx ny where n: "n = (nx, ny)" by (cases n) auto
  have "0 \<le> nx" "0 \<le> ny" using assms by (auto simp: validAt_def n)
  then have n': "n = (int (nat nx), int (nat ny))" by (simp add: n)
  with assms have "validAt d w h (int (nat nx), int (nat ny))" by simp
  then show ?thesis using that [OF n'] unfolding validAt_nat by blast
qed

lemma all_hole_no_valid:
  assumes "\<forall>idx\<in>set (pixelIndices w h). isHole m idx"
  shows "\<not> validAt (fst (initFill d m w h False)) w h n"
proof
  let ?d0 = "fst (initFill d m w h False)"
  assume "validAt ?d0 w h n"
  then obtain x y where xy: "x < w" "y < h" and valid: "isValid ?d0 ((y * w + x) * 4)"
    by (rule validAt_cases)
  have "y * w + x < w * h" using xy by (rule pixel_in_grid)
  then have mem: "(y * w + x) * 4 \<in> set (pixelIndices w h)" unfolding set_pixelIndices by blast
  then have hole: "isHole m ((y * w + x) * 4)" using assms by simp
  have lt: "(y * w + x) * 4 + 3 < length d" using valid by (simp add: isValid_def initFill_length)
  have "?d0 ! ((y * w + x) * 4 + 3) = 0"
    using initFill_nth [OF lt, of m w h False] mem hole by auto
  then show False using valid by (simp add: isValid_def)
qed

lemma all_hole_run:
  assumes "\<forall>idx\<in>set (pixelIndices w h). isHole m idx"
  shows "sharpDiffusionRun d m w h maxP False =
           (fst (initFill d m w h False), map Some (pixelIndices w h), int (w * h), 0)"
proof -
  let ?t = "map Some (pixelIndices w h)"
  obtain d0 t0 where init: "initFill d m w h False = (d0, t0)"
    by (cases "initFill d m w h False") auto
  have t: "t0 = ?t"
    using initFill_todo [of d m w h False] assms init by (simp add: filter_id_conv)
  have d0: "d0 = fst (initFill d m w h False)" using init by simp
  have len: "length ?t = w * h" by (simp add: pixelIndices_eq mult.commute)
  have "\<forall>n. \<not> validAt d0 w h n"
    unfolding d0 using all_hole_no_valid [OF assms] by blast
  then have scan: "scanPass d0 w h ?t = []"
    unfolding scanPass_Nil_iff fillColor_None_iff by blast
  have "diffusionLoop w h maxP False d0 ?t (int (w * h)) 0 = (d0, ?t, int (w * h), 0)"
  proof (cases "int (w * h) > 0 \<and> 0 < maxP")
    case False
    then show ?thesis by (rule diffusionLoop_stop)
  next
    case True
    have c: "commitPass False (scanPass d0 w h ?t) d0 ?t = (d0, ?t, 0)"
      by (simp add: scan commitPass_def)
    show ?thesis using True by (intro diffusionLoop_break [OF _ _ c]) auto
  qed
  then show ?thesis unfolding sharpDiffusionRun_def init t using len by simp
qed

text \<open>
  Claim C6. When no keep pixel exists (every pixel of the grid is a hole), the SpaceFill
  run ends at once: the first pass fills nothing and the loop is left before \<open>pass\<close> is
  incremented (no pass at all when the grid is empty or the budget is zero), so the
  final pass counter is 0, and every hole pixel of the buffer is left with alpha 0.
  The loop itself is a total function: every run ends after at most \<open>maxPasses\<close> passes.
\<close>

theorem spaceFill_all_hole:
  assumes "\<forall>idx\<in>set (pixelIndices width height). isHole mData idx"
  shows "snd (snd (snd (sharpDiffusionRun data mData width height maxPasses False))) = 0 \<and>
         (\<forall>idx\<in>set (pixelIndices width height). idx + 3 < length data \<longrightarrow>
            sharpDiffusion data mData width height maxPasses False ! (idx + 3) = 0)"
proof -
  have "\<forall>idx\<in>set (pixelIndices width height). idx + 3 < length data \<longrightarrow>
          fst (initFill data mData width height False) ! (idx + 3) = 0"
    using assms by (auto simp: initFill_nth)
  then show ?thesis
    by (simp add: sharpDiffusion_def all_hole_run [OF assms])
qed

theorem spaceFill_all_hole_witness:
  "snd (snd (snd (sharpDiffusionRun [1, 2, 3, 255, 4, 5, 6, 255] [0, 0, 0, 0, 0, 0, 0, 127] 2 1 2 False))) = 0 \<and>
   sharpDiffusion [1, 2, 3, 255, 4, 5, 6, 255] [0, 0, 0, 0, 0, 0, 0, 127] 2 1 2 False ! 3 = 0 \<and>
   sharpDiffusion [1, 2, 3, 255, 4, 5, 6, 255] [0, 0, 0, 0, 0, 0, 0, 127] 2 1 2 False ! 7 = 0"
proof -
  have h: "\<forall>idx\<in>set (pixelIndices 2 1). isHole [0, 0, 0, 0, 0, 0, 0, 127] idx"
    by code_simp
  have m: "0 \<in> set (pixelIndices 2 1)" "4 \<in> set (pixelIndices 2 1)"
    by code_simp+
  show ?thesis
    using spaceFill_all_hole [OF h, of "[1, 2, 3, 255, 4, 5, 6, 255]" 2] m by force
qed

subsection \<open>The loop under SeamHeal\<close>





subsection \<open>Canvas reads\<close>

lemma length_getImageData: "length (getImageData c w h) = w * h * 4"
  by (simp add: getImageData_def)


lemma grid_coords:
  assumes "p < w * (h::nat)"
  shows "p mod w < w" and "p div w < h" and "(p div w) * w + p mod w = p"
proof -
  have "w > 0" using assms by (cases w) auto
  then show "p mod w < w" by simp
  show "p div w < h" using assms by (simp add: less_mult_imp_div_less mult.commute)
  show "(p div w) * w + p mod w = p" by simp
qed



subsection \<open>Positions the fill never writes\<close>

lemma initFold_untouched:
  "\<forall>idx\<in>set idxs. isHole m idx \<longrightarrow> j \<noteq> idx + 3 \<Longrightarrow>
   fst (fold (initStep m pres) idxs (d, t)) ! j = d ! j"
  by (induction idxs arbitrary: d t) auto

lemma sharpDiffusionRun_untouched:
  assumes "\<forall>idx\<in>set (pixelIndices w h). isHole m idx \<longrightarrow> j < idx \<or> idx + 3 < j"
    and "sharpDiffusionRun d m w h n pres = (d', t', r', p')"
  shows "d' ! j = d ! j"
proof -
  obtain d0 t0 where init: "initFill d m w h pres = (d0, t0)"
    by (cases "initFill d m w h pres") auto
  have t0: "t0 = map Some (filter (isHole m) (pixelIndices w h))"
    using initFill_todo [of d m w h pres] init by simp
  have "\<forall>idx\<in>set (pixelIndices w h). isHole m idx \<longrightarrow> j \<noteq> idx + 3"
    using assms(1) by auto
  then have d0: "d0 ! j = d ! j"
    using initFold_untouched [of "pixelIndices w h" m j pres d "[]"] init by (simp add: initFill_def)
  define I where "I = (\<lambda>(e::byte list) (t::nat option list) (r::int) (p::nat).
      e ! j = d ! j \<and> (\<forall>i. Some i \<in> set t \<longrightarrow> i \<in> set (pixelIndices w h) \<and> isHole m i))"
  have I0: "I d0 t0 (int (length t0)) 0" unfolding I_def using d0 t0 by auto
  have "case diffusionLoop w h n pres d0 t0 (int (length t0)) 0 of
          (d', t', r', p') \<Rightarrow> I d' t' r' p' \<and> (r' \<le> 0 \<or> n \<le> p' \<or> (\<not> pres \<and> scanPass d' w h t' = []))"
  proof (rule diffusionLoop_rule [where I = I, OF I0])
    fix e t r p e' t' fc
    assume I: "I e t r p" and c: "commitPass pres (scanPass e w h t) e t = (e', t', fc)"
    have "e' ! j = e ! j"
      by (rule pass_untouched [OF c]) (use I assms(1) in \<open>auto simp: I_def\<close>)
    moreover have "\<forall>i. Some i \<in> set t' \<longrightarrow> Some i \<in> set t"
      using pass_todo_subset [OF c] by blast
    ultimately show "I e' t' (if pres then r else r - int fc) (p + 1)"
      using I unfolding I_def by auto
  qed
  then show ?thesis using assms(2) unfolding sharpDiffusionRun_def init I_def by auto
qed

lemma sharpDiffusion_untouched:
  assumes "\<forall>idx\<in>set (pixelIndices w h). isHole m idx \<longrightarrow> j < idx \<or> idx + 3 < j"
  shows "sharpDiffusion d m w h n pres ! j = d ! j"
proof -
  obtain d' t' r' p' where r: "sharpDiffusionRun d m w h n pres = (d', t', r', p')"
    by (cases "sharpDiffusionRun d m w h n pres") auto
  show ?thesis using sharpDiffusionRun_untouched [OF assms r] r by (simp add: sharpDiffusion_def)
qed

lemma sharpDiffusion_keep:
  assumes "\<not> isHole m (p * 4)" and "c < 4"
  shows "sharpDiffusion d m w h n pres ! (p * 4 + c) = d ! (p * 4 + c)"
proof (rule sharpDiffusion_untouched, intro ballI impI)
  fix idx assume "idx \<in> set (pixelIndices w h)" and hole: "isHole m idx"
  then obtain q where q: "idx = q * 4" by (auto simp: set_pixelIndices)
  then have "q \<noteq> p" using hole assms(1) by auto
  then show "p * 4 + c < idx \<or> idx + 3 < p * 4 + c" using assms(2) q by presburger
qed

lemma textureFold_untouched:
  "\<forall>i\<in>set idxs. isHole m i \<longrightarrow> j < i \<or> i + 3 < j \<Longrightarrow>
   fst (fold (textureStep s m rnd) idxs (fd, k)) ! j = fd ! j"
  by (induction idxs arbitrary: fd k) (auto simp: Let_def)

lemma finalComposite_keep:
  assumes "\<not> isHole m (p * 4)" and "c < 4"
  shows "finalComposite s m rnd fd ! (p * 4 + c) = fd ! (p * 4 + c)"
  unfolding finalComposite_def
proof (rule textureFold_untouched, intro ballI impI)
  fix i assume "i \<in> set (map (\<lambda>n. n * 4) [0..<(length fd + 3) div 4])" and hole: "isHole m i"
  then obtain q where q: "i = q * 4" by auto
  then have "q \<noteq> p" using hole assms(1) by auto
  then show "p * 4 + c < i \<or> i + 3 < p * 4 + c" using assms(2) q by presburger
qed

subsection \<open>The service\<close>


lemma hierarchicalInpaint_data:
  "pxData (hierarchicalInpaint scaled random ctxCanvas maskCanvas w h) =
     (case pyramid scaled ctxCanvas maskCanvas w h of
        None \<Rightarrow> pxData ctxCanvas
      | Some lastCanvas \<Rightarrow>
          finalComposite (getImageData lastCanvas w h) (getImageData maskCanvas w h) random
            (getImageData ctxCanvas w h))"
  by (simp add: hierarchicalInpaint_def putImageData_def Let_def split: option.splits)




section \<open>Properties of the texturizer\<close>

subsection \<open>Rounding on store\<close>

lemma uint_byte_of_int: "0 \<le> f \<Longrightarrow> f < 256 \<Longrightarrow> uint (word_of_int f :: byte) = f"
  by (simp add: uint_word_of_int_eq take_bit_int_eq_self)

lemma uint_byte_bound: "uint (b :: byte) \<le> 255"
  using unsigned_less [of b, where ?'a = int] by simp

lemma byte_as_rat: "(of_nat (unat (b :: byte)) :: rat) = of_int (uint b)"
  by simp



lemma toUint8Clamp_value:
  "uint (toUint8Clamp v) =
     (if v \<le> 0 then 0 else if v \<ge> 255 then 255
      else if frac v < 1 / 2 then \<lfloor>v\<rfloor> else if frac v > 1 / 2 then \<lfloor>v\<rfloor> + 1
      else if even \<lfloor>v\<rfloor> then \<lfloor>v\<rfloor> else \<lfloor>v\<rfloor> + 1)"
proof (cases "v \<le> 0 \<or> v \<ge> 255")
  case True
  then show ?thesis by (auto simp: toUint8Clamp_def)
next
  case False
  then have f: "0 \<le> \<lfloor>v\<rfloor>" "\<lfloor>v\<rfloor> < 255" by (simp_all add: floor_less_iff)
  define g where "g = \<lfloor>v\<rfloor> + 1"
  have g: "0 \<le> g" "g < 256" using f by (simp_all add: g_def)
  have u: "uint (word_of_int \<lfloor>v\<rfloor> :: byte) = \<lfloor>v\<rfloor>" "uint (word_of_int g :: byte) = g"
    using f g by (simp_all only: uint_byte_of_int)
  have c: "of_int \<lfloor>v\<rfloor> + 1 / 2 < v \<longleftrightarrow> frac v > 1 / 2" "v < of_int \<lfloor>v\<rfloor> + 1 / 2 \<longleftrightarrow> frac v < 1 / 2"
    by (auto simp: frac_def)
  have "toUint8Clamp v =
      (if frac v > 1 / 2 then word_of_int g else if frac v < 1 / 2 then word_of_int \<lfloor>v\<rfloor>
       else if even \<lfloor>v\<rfloor> then word_of_int \<lfloor>v\<rfloor> else word_of_int g)"
    using False unfolding toUint8Clamp_def Let_def c g_def by simp
  then show ?thesis using False u unfolding g_def [symmetric] by auto
qed

lemma toUint8Clamp_between:
  assumes "of_int lo \<le> v" and "v \<le> of_int hi" and "0 \<le> lo" and "hi \<le> 255"
  shows "lo \<le> uint (toUint8Clamp v) \<and> uint (toUint8Clamp v) \<le> hi"
proof -
  have lo: "lo \<le> \<lfloor>v\<rfloor>" using assms(1) by (simp add: le_floor_iff)
  have hi: "\<lfloor>v\<rfloor> \<le> hi" using assms(2) by (simp add: floor_le_iff)
  have hi': "\<lfloor>v\<rfloor> + 1 \<le> hi" if "frac v \<ge> 1 / 2"
  proof -
    have "of_int \<lfloor>v\<rfloor> < v" using that by (simp add: frac_def)
    then have "of_int \<lfloor>v\<rfloor> < (of_int hi :: rat)" using assms(2) by simp
    then show ?thesis by simp
  qed
  have lo0: "v \<le> 0 \<Longrightarrow> lo \<le> 0" using assms(1)
    by (metis of_int_0 of_int_le_iff order_trans)
  have hi255: "v \<ge> 255 \<Longrightarrow> 255 \<le> hi" using assms(2)
    by (metis of_int_le_iff of_int_numeral order_trans)
  show ?thesis unfolding toUint8Clamp_value using lo hi hi' lo0 hi255 assms(3,4) by auto
qed

lemma addNoise_bound:
  assumes "0 \<le> u" and "u < 1"
  shows "\<bar>uint (addNoise s ((u - 1 / 2) * 12)) - uint s\<bar> \<le> 6"
proof -
  define n where "n = (u - 1 / 2) * 12"
  define sv where "sv = uint s"
  define v where "v = max 0 (min 255 (of_int sv + n))"
  have n: "- 6 \<le> n" "n \<le> 6" using assms by (simp_all add: n_def)
  have s: "0 \<le> sv" "sv \<le> 255" using uint_byte_bound [of s] by (simp_all add: sv_def)
  then have s': "0 \<le> (of_int sv :: rat)" "(of_int sv :: rat) \<le> 255" by simp_all
  have lo: "of_int (max 0 (sv - 6)) \<le> v"
    using n s' by (auto simp: v_def max_def min_def)
  have hi: "v \<le> of_int (min 255 (sv + 6))"
    using n s' by (auto simp: v_def max_def min_def)
  from toUint8Clamp_between [OF lo hi]
  have "max 0 (sv - 6) \<le> uint (toUint8Clamp v)"
    "uint (toUint8Clamp v) \<le> min 255 (sv + 6)" by simp_all
  moreover have "addNoise s ((u - 1 / 2) * 12) = toUint8Clamp v"
    unfolding addNoise_def byte_as_rat v_def n_def sv_def ..
  ultimately show ?thesis unfolding sv_def by auto
qed


subsection \<open>The final composite at a hole pixel\<close>


lemma textureFold_hole:
  assumes "distinct idxs" and "\<forall>x\<in>set idxs. 4 dvd x" and "i \<in> set idxs"
    and "isHole m i" and "i + 3 < length fd" and "c \<le> 3"
  shows "fst (fold (textureStep s m rnd) idxs (fd, k)) ! (i + c) =
           (if c < 3
            then addNoise (s ! (i + c))
                   ((rnd (k + length (filter (isHole m) (takeWhile (\<lambda>x. x \<noteq> i) idxs))) - 1 / 2) * 12)
            else 255)"
  using assms(1-5)
proof (induction idxs arbitrary: fd k)
  case Nil
  then show ?case by simp
next
  case (Cons x xs)
  obtain fd' k' where step: "textureStep s m rnd x (fd, k) = (fd', k')"
    by (cases "textureStep s m rnd x (fd, k)") auto
  have len: "length fd' = length fd" using step by (auto simp: Let_def split: if_splits)
  have fold: "fold (textureStep s m rnd) (x # xs) (fd, k) = fold (textureStep s m rnd) xs (fd', k')"
    using step by simp
  show ?case
  proof (cases "x = i")
    case True
    have far: "\<forall>y\<in>set xs. isHole m y \<longrightarrow> i + c < y \<or> y + 3 < i + c"
    proof (intro ballI impI)
      fix y assume y: "y \<in> set xs"
      then have "y \<noteq> i" using Cons.prems(1) True by auto
      moreover have "4 dvd y" "4 dvd i" using Cons.prems(2) y True by auto
      ultimately show "i + c < y \<or> y + 3 < i + c" using assms(6) by presburger
    qed
    have "fst (fold (textureStep s m rnd) xs (fd', k')) ! (i + c) = fd' ! (i + c)"
      by (rule textureFold_untouched [OF far])
    moreover have "fd' = fd[i := addNoise (s ! i) ((rnd k - 1 / 2) * 12),
                          i + 1 := addNoise (s ! (i + 1)) ((rnd k - 1 / 2) * 12),
                          i + 2 := addNoise (s ! (i + 2)) ((rnd k - 1 / 2) * 12),
                          i + 3 := 255]"
      using step True Cons.prems(4) by (simp add: Let_def)
    moreover have "c = 0 \<or> c = 1 \<or> c = 2 \<or> c = 3" using assms(6) by auto
    ultimately show ?thesis unfolding fold using True Cons.prems(5) by auto
  next
    case False
    then have mem: "i \<in> set xs" using Cons.prems(3) by simp
    have k': "k' = k + length (filter (isHole m) [x])"
      using step by (auto simp: Let_def split: if_splits)
    have tw: "takeWhile (\<lambda>y. y \<noteq> i) (x # xs) = x # takeWhile (\<lambda>y. y \<noteq> i) xs"
      using False by simp
    have "fst (fold (textureStep s m rnd) xs (fd', k')) ! (i + c) =
           (if c < 3
            then addNoise (s ! (i + c))
                   ((rnd (k' + length (filter (isHole m) (takeWhile (\<lambda>x. x \<noteq> i) xs))) - 1 / 2) * 12)
            else 255)"
      by (rule Cons.IH) (use Cons.prems mem len in auto)
    then show ?thesis unfolding fold tw k' by (simp add: add.assoc)
  qed
qed

lemma takeWhile_pixel:
  assumes "p < N"
  shows "takeWhile (\<lambda>x. x \<noteq> p * 4) (map (\<lambda>n. n * 4) [0..<N]) = map (\<lambda>n. n * 4) [0..<p]"
proof -
  have "[0..<N] = [0..<p] @ [p..<N]"
    using upt_add_eq_append [of 0 p "N - p"] assms by simp
  moreover have "[p..<N] = p # [Suc p..<N]" using assms by (simp add: upt_conv_Cons)
  ultimately have "[0..<N] = [0..<p] @ p # [Suc p..<N]" by simp
  then have "map (\<lambda>n. n * 4) [0..<N] = map (\<lambda>n. n * 4) [0..<p] @ p * 4 # map (\<lambda>n. n * 4) [Suc p..<N]"
    by simp
  moreover have "takeWhile (\<lambda>x. x \<noteq> p * 4)
        (map (\<lambda>n. n * 4) [0..<p] @ p * 4 # map (\<lambda>n. n * 4) [Suc p..<N])
      = map (\<lambda>n. n * 4) [0..<p] @ takeWhile (\<lambda>x. x \<noteq> p * 4) (p * 4 # map (\<lambda>n. n * 4) [Suc p..<N])"
    by (rule takeWhile_append2) auto
  ultimately show ?thesis by simp
qed

lemma finalComposite_hole:
  assumes "isHole m (p * 4)" and "p * 4 + 3 < length fd" and "c \<le> 3"
  shows "finalComposite s m rnd fd ! (p * 4 + c) =
           (if c < 3 then addNoise (s ! (p * 4 + c)) (noiseAt rnd m p) else 255)"
proof -
  let ?N = "(length fd + 3) div 4"
  let ?idxs = "map (\<lambda>n. n * 4) [0..<?N]"
  have pN: "p < ?N" using assms(2) by simp
  have d: "distinct ?idxs" by (simp add: distinct_map inj_on_def)
  have dv: "\<forall>x\<in>set ?idxs. 4 dvd x" by auto
  have mem: "p * 4 \<in> set ?idxs" using pN by auto
  show ?thesis
    unfolding finalComposite_def noiseAt_def drawIndex_def
    using textureFold_hole [OF d dv mem assms(1,2,3), of s rnd 0]
    by (simp add: takeWhile_pixel [OF pN])
qed





text \<open>
  Claim C8. In photo mode, for every stream of draws from \<open>[0, 1)\<close>: at a hole pixel each
  of R, G, B of the output differs from the pre-texture value (the pixel of the last
  pyramid canvas) by at most 6 and the alpha is 255; at any other pixel all four bytes
  are those of the input canvas.
\<close>

theorem photo_noise_bounded:
  assumes "\<forall>k. 0 \<le> random k \<and> random k < 1"
    and "pyramid scaled ctxCanvas maskCanvas width height = Some lastCanvas"
    and "p < width * height"
  shows "if isHole (getImageData maskCanvas width height) (p * 4)
         then (\<forall>c<3. \<bar>uint (pxData (hierarchicalInpaint scaled random ctxCanvas maskCanvas width height) ! (p * 4 + c))
                       - uint (getImageData lastCanvas width height ! (p * 4 + c))\<bar> \<le> 6)
              \<and> pxData (hierarchicalInpaint scaled random ctxCanvas maskCanvas width height) ! (p * 4 + 3) = 255
         else (\<forall>c<4. pxData (hierarchicalInpaint scaled random ctxCanvas maskCanvas width height) ! (p * 4 + c)
                       = getImageData ctxCanvas width height ! (p * 4 + c))"
proof -
  let ?m = "getImageData maskCanvas width height"
  let ?s = "getImageData lastCanvas width height"
  let ?fd = "getImageData ctxCanvas width height"
  have out: "pxData (hierarchicalInpaint scaled random ctxCanvas maskCanvas width height)
               = finalComposite ?s ?m random ?fd"
    unfolding hierarchicalInpaint_data assms(2) by simp
  have lt: "p * 4 + 3 < length ?fd" using assms(3) by (simp add: length_getImageData)
  show ?thesis
  proof (cases "isHole ?m (p * 4)")
    case True
    have "\<bar>uint (finalComposite ?s ?m random ?fd ! (p * 4 + c)) - uint (?s ! (p * 4 + c))\<bar> \<le> 6"
      if "c < 3" for c
    proof -
      have "finalComposite ?s ?m random ?fd ! (p * 4 + c) = addNoise (?s ! (p * 4 + c)) (noiseAt random ?m p)"
        using finalComposite_hole [OF True lt, of c ?s random] that by simp
      then show ?thesis unfolding noiseAt_def using addNoise_bound assms(1) by simp
    qed
    moreover have "finalComposite ?s ?m random ?fd ! (p * 4 + 3) = 255"
      using finalComposite_hole [OF True lt, of 3 ?s random] by simp
    ultimately show ?thesis unfolding out using True by simp
  next
    case False
    then show ?thesis unfolding out using finalComposite_keep [OF False] by simp
  qed
qed

theorem photo_noise_bounded_witness:
  "pyramid (\<lambda>hq src sw sh. getImageData src sw sh)
        \<lparr>pxWidth = 2, pxHeight = 1, pxData = [0, 1, 7, 255, 9, 9, 9, 255]\<rparr>
        \<lparr>pxWidth = 2, pxHeight = 1, pxData = [0, 0, 0, 255, 0, 0, 0, 0]\<rparr> 2 1
      = Some \<lparr>pxWidth = 2, pxHeight = 1, pxData = [0, 1, 7, 255, 0, 1, 7, 255]\<rparr>
   \<and> \<bar>uint (pxData (hierarchicalInpaint (\<lambda>hq src sw sh. getImageData src sw sh) (\<lambda>k. 5 / 8)
        \<lparr>pxWidth = 2, pxHeight = 1, pxData = [0, 1, 7, 255, 9, 9, 9, 255]\<rparr>
        \<lparr>pxWidth = 2, pxHeight = 1, pxData = [0, 0, 0, 255, 0, 0, 0, 0]\<rparr> 2 1) ! (1 * 4 + 0))
     - uint (getImageData \<lparr>pxWidth = 2, pxHeight = 1, pxData = [0, 1, 7, 255, 0, 1, 7, 255]\<rparr> 2 1 ! (1 * 4 + 0))\<bar> \<le> 6
   \<and> pxData (hierarchicalInpaint (\<lambda>hq src sw sh. getImageData src sw sh) (\<lambda>k. 5 / 8)
        \<lparr>pxWidth = 2, pxHeight = 1, pxData = [0, 1, 7, 255, 9, 9, 9, 255]\<rparr>
        \<lparr>pxWidth = 2, pxHeight = 1, pxData = [0, 0, 0, 255, 0, 0, 0, 0]\<rparr> 2 1) ! (1 * 4 + 3) = 255"
proof -
  have r: "\<forall>k::nat. (0::rat) \<le> 5 / 8 \<and> (5 / 8 :: rat) < 1" by simp
  have py: "pyramid (\<lambda>hq src sw sh. getImageData src sw sh)
        \<lparr>pxWidth = 2, pxHeight = 1, pxData = [0, 1, 7, 255, 9, 9, 9, 255]\<rparr>
        \<lparr>pxWidth = 2, pxHeight = 1, pxData = [0, 0, 0, 255, 0, 0, 0, 0]\<rparr> 2 1
      = Some \<lparr>pxWidth = 2, pxHeight = 1, pxData = [0, 1, 7, 255, 0, 1, 7, 255]\<rparr>"
    by code_simp
  have p: "(1::nat) < 2 * 1" by simp
  have h: "isHole (getImageData \<lparr>pxWidth = 2, pxHeight = 1, pxData = [0, 0, 0, 255, 0, 0, 0, 0]\<rparr> 2 1) (1 * 4)"
    by code_simp
  have z: "(0::nat) < 3" by simp
  from photo_noise_bounded [OF r py p] show ?thesis
    unfolding if_P [OF h] using z py by blast
qed




section \<open>Further properties of SpaceFill\<close>

subsection \<open>Pass budgets: a shorter run is a prefix of a longer one\<close>

lemma diffusionLoop_prefix:
  assumes "n \<le> n'"
  shows "diffusionLoop w h n' pres d t r p =
           (case diffusionLoop w h n pres d t r p of
              (d1, t1, r1, p1) \<Rightarrow> diffusionLoop w h n' pres d1 t1 r1 p1)"
proof (induction "n - p" arbitrary: d t r p)
  case 0
  then have "diffusionLoop w h n pres d t r p = (d, t, r, p)"
    by (intro diffusionLoop_stop) simp
  then show ?case by simp
next
  case (Suc k)
  show ?case
  proof (cases "r > 0")
    case False
    then have "diffusionLoop w h n pres d t r p = (d, t, r, p)"
      by (intro diffusionLoop_stop) simp
    then show ?thesis by simp
  next
    case True
    have lt: "p < n" "p < n'" using Suc.hyps(2) assms by simp_all
    obtain d' t' fc where c: "commitPass pres (scanPass d w h t) d t = (d', t', fc)"
      by (cases "commitPass pres (scanPass d w h t) d t") auto
    show ?thesis
    proof (cases "pres \<or> fc \<noteq> 0")
      case go: True
      have k: "k = n - (p + 1)" using Suc.hyps(2) by simp
      show ?thesis
        unfolding diffusionLoop_next [OF True lt(1) c go] diffusionLoop_next [OF True lt(2) c go]
        by (rule Suc.hyps(1) [OF k])
    next
      case False
      then have b: "\<not> pres" "fc = 0" by simp_all
      have same: "d' = d" "t' = t" using pass_idle [OF c b(2)] by simp_all
      have "diffusionLoop w h n pres d t r p = (d, t, r, p)"
        using diffusionLoop_break [OF True lt(1) c b] same by simp
      then show ?thesis by simp
    qed
  qed
qed

subsection \<open>The worklist invariant of SpaceFill\<close>

lemma spaceFill_invariant:
  assumes "sharpDiffusionRun d m w h n False = (d1, t1, r1, p1)"
  shows "length d1 = length d \<and> distinct (pending t1) \<and> r1 = int (length (pending t1)) \<and>
         (\<forall>i\<in>set (pending t1). i \<in> set (pixelIndices w h) \<and> isHole m i \<and>
            (i + 3 < length d \<longrightarrow> d1 ! (i + 3) = 0))"
proof -
  obtain d0 t0 where init: "initFill d m w h False = (d0, t0)"
    by (cases "initFill d m w h False") auto
  have t0: "t0 = map Some (filter (isHole m) (pixelIndices w h))"
    using initFill_todo [of d m w h False] init by simp
  have d0: "d0 = fst (initFill d m w h False)" using init by simp
  define I where "I = (\<lambda>(e::byte list) (t::nat option list) (r::int) (p::nat).
      length e = length d \<and> distinct (pending t) \<and> r = int (length (pending t)) \<and>
      (\<forall>i\<in>set (pending t). i \<in> set (pixelIndices w h) \<and> isHole m i \<and>
          (i + 3 < length d \<longrightarrow> e ! (i + 3) = 0)))"
  have I0: "I d0 t0 (int (length t0)) 0"
    unfolding I_def t0 d0
    by (auto simp: pending_map_Some initFill_length initFill_nth distinct_pixelIndices)
  have "case diffusionLoop w h n False d0 t0 (int (length t0)) 0 of
          (d', t', r', p') \<Rightarrow> I d' t' r' p' \<and> (r' \<le> 0 \<or> n \<le> p' \<or> (\<not> False \<and> scanPass d' w h t' = []))"
  proof (rule diffusionLoop_rule [where I = I, OF I0])
    fix e t r p e' t' fc
    assume I: "I e t r p" and c: "commitPass False (scanPass e w h t) e t = (e', t', fc)"
    have dist: "distinct (pending t)" using I by (simp add: I_def)
    note pp = pass_pending [OF c dist]
    have dv: "\<forall>i. Some i \<in> set t \<longrightarrow> 4 dvd i"
      using I by (auto simp: I_def set_pending set_pixelIndices)
    have "e' ! (i + 3) = 0" if i: "i \<in> set (pending t')" "i + 3 < length d" for i
    proof -
      have mem: "i \<in> set (pending t)" and none: "fillColor e w h i = None"
        using i(1) unfolding pp(2) by simp_all
      have "e' ! (i + 3) = e ! (i + 3)"
        by (rule pass_keep [OF c dv]) (use mem none dv in \<open>auto simp: set_pending\<close>)
      then show ?thesis using I mem i(2) by (simp add: I_def)
    qed
    moreover have "int (length (pending t')) = r - int fc"
      using pp(3) I by (simp add: I_def)
    moreover have "length e' = length d" using pass_length [OF c] I by (simp add: I_def)
    ultimately show "I e' t' (if False then r else r - int fc) (p + 1)"
      using I pp(1,2) unfolding I_def by auto
  qed
  then show ?thesis using assms unfolding sharpDiffusionRun_def init I_def by auto
qed

lemma diffusionLoop_done_pixel:
  assumes "diffusionLoop w h n pres d t r p = (d', t', r', p')"
    and "\<forall>i. Some i \<in> set t \<longrightarrow> 4 dvd i" and "4 dvd k" and "Some k \<notin> set t" and "c \<le> 3"
  shows "d' ! (k + c) = d ! (k + c) \<and> Some k \<notin> set t'"
proof -
  define I where "I = (\<lambda>(e::byte list) (u::nat option list) (r::int) (p::nat).
      e ! (k + c) = d ! (k + c) \<and> Some k \<notin> set u \<and> (\<forall>i. Some i \<in> set u \<longrightarrow> 4 dvd i))"
  have I0: "I d t r p" using assms by (simp add: I_def)
  have "case diffusionLoop w h n pres d t r p of
          (d', t', r', p') \<Rightarrow> I d' t' r' p' \<and> (r' \<le> 0 \<or> n \<le> p' \<or> (\<not> pres \<and> scanPass d' w h t' = []))"
  proof (rule diffusionLoop_rule [where I = I, OF I0])
    fix e u r p e' u' fc
    assume I: "I e u r p" and cm: "commitPass pres (scanPass e w h u) e u = (e', u', fc)"
    have "e' ! (k + c) = e ! (k + c)"
      by (rule pass_keep [OF cm]) (use I assms(3,5) in \<open>auto simp: I_def\<close>)
    moreover have "\<forall>i. Some i \<in> set u' \<longrightarrow> Some i \<in> set u"
      using pass_todo_subset [OF cm] by blast
    ultimately show "I e' u' (if pres then r else r - int fc) (p + 1)"
      using I unfolding I_def by auto
  qed
  then show ?thesis using assms(1) by (simp add: I_def)
qed

text \<open>
  Claim C9. Under SpaceFill a hole pixel is written at most once. The run with pass
  budget \<open>n\<close> is the state of any run with a larger budget \<open>n'\<close> after its first \<open>n\<close>
  passes (or at its end, when it ends earlier). If by then the hole pixel has alpha 255,
  it is no longer in the worklist, and the rest of the longer run leaves it out of the
  worklist and leaves its four bytes as they are.
\<close>

theorem spaceFill_written_once:
  assumes "n \<le> n'"
    and "sharpDiffusionRun data mData width height n False = (d1, t1, r1, p1)"
    and "sharpDiffusionRun data mData width height n' False = (d2, t2, r2, p2)"
    and "idx \<in> set (pixelIndices width height)" and "isHole mData idx"
    and "idx + 3 < length data" and "d1 ! (idx + 3) = 255"
  shows "Some idx \<notin> set t1 \<and> Some idx \<notin> set t2 \<and> (\<forall>c<4. d2 ! (idx + c) = d1 ! (idx + c))"
proof -
  note inv = spaceFill_invariant [OF assms(2)]
  have out: "Some idx \<notin> set t1"
  proof
    assume "Some idx \<in> set t1"
    then have "idx \<in> set (pending t1)" by (simp add: set_pending)
    then have "d1 ! (idx + 3) = 0" using inv assms(6) by blast
    then show False using assms(7) by simp
  qed
  have dv: "\<forall>i. Some i \<in> set t1 \<longrightarrow> 4 dvd i"
    using inv by (auto simp: set_pending set_pixelIndices)
  have dk: "4 dvd idx" using assms(4) by (auto simp: set_pixelIndices)
  obtain d0 t0 where init: "initFill data mData width height False = (d0, t0)"
    by (cases "initFill data mData width height False") auto
  have l1: "diffusionLoop width height n False d0 t0 (int (length t0)) 0 = (d1, t1, r1, p1)"
    using assms(2) by (simp add: sharpDiffusionRun_def init)
  have l2: "diffusionLoop width height n' False d0 t0 (int (length t0)) 0 = (d2, t2, r2, p2)"
    using assms(3) by (simp add: sharpDiffusionRun_def init)
  have cont: "diffusionLoop width height n' False d1 t1 r1 p1 = (d2, t2, r2, p2)"
    using diffusionLoop_prefix [OF assms(1), of width height False d0 t0 "int (length t0)" 0] l1 l2
    by simp
  have fin: "d2 ! (idx + c) = d1 ! (idx + c) \<and> Some idx \<notin> set t2" if "c < 4" for c
    by (rule diffusionLoop_done_pixel [OF cont dv dk out]) (use that in simp)
  have "Some idx \<notin> set t2" using fin [of 0] by simp
  then show ?thesis using out fin by simp
qed

theorem spaceFill_written_once_witness:
  "sharpDiffusionRun [1, 2, 3, 255, 9, 9, 9, 255, 4, 4, 4, 255] [0, 0, 0, 255, 0, 0, 0, 0, 0, 0, 0, 0] 3 1 1 False
     = ([1, 2, 3, 255, 1, 2, 3, 255, 4, 4, 4, 0], [None, Some 8], 1, 1)
   \<and> sharpDiffusionRun [1, 2, 3, 255, 9, 9, 9, 255, 4, 4, 4, 255] [0, 0, 0, 255, 0, 0, 0, 0, 0, 0, 0, 0] 3 1 3 False
     = ([1, 2, 3, 255, 1, 2, 3, 255, 1, 2, 3, 255], [None, None], 0, 2)
   \<and> Some 4 \<notin> set [None, Some (8::nat)] \<and> Some 4 \<notin> set [None, None :: nat option]
   \<and> [1, 2, 3, 255, 1, 2, 3, 255, 1, 2, 3, 255 :: byte] ! (4 + 1)
       = [1, 2, 3, 255, 1, 2, 3, 255, 4, 4, 4, 0] ! (4 + 1)"
proof -
  have a: "sharpDiffusionRun [1, 2, 3, 255, 9, 9, 9, 255, 4, 4, 4, 255] [0, 0, 0, 255, 0, 0, 0, 0, 0, 0, 0, 0] 3 1 1 False
     = ([1, 2, 3, 255, 1, 2, 3, 255, 4, 4, 4, 0], [None, Some 8], 1, 1)" by code_simp
  have b: "sharpDiffusionRun [1, 2, 3, 255, 9, 9, 9, 255, 4, 4, 4, 255] [0, 0, 0, 255, 0, 0, 0, 0, 0, 0, 0, 0] 3 1 3 False
     = ([1, 2, 3, 255, 1, 2, 3, 255, 1, 2, 3, 255], [None, None], 0, 2)" by code_simp
  have le: "(1::nat) \<le> 3" by simp
  have m: "4 \<in> set (pixelIndices 3 1)" by code_simp
  have h: "isHole [0, 0, 0, 255, 0, 0, 0, 0, 0, 0, 0, 0] 4" by code_simp
  have l: "4 + 3 < length [1, 2, 3, 255, 9, 9, 9, 255, 4, 4, 4, 255 :: byte]" by simp
  have f: "[1, 2, 3, 255, 1, 2, 3, 255, 4, 4, 4, 0 :: byte] ! (4 + 3) = 255" by simp
  have o: "(1::nat) < 4" by simp
  from spaceFill_written_once [OF le a b m h l f] o a b show ?thesis by blast
qed

subsection \<open>Two runs on buffers that show the same picture\<close>

lemma sameVisible_update:
  assumes "sameVisible d1 d2" and "4 dvd k"
  shows "sameVisible (d1[k := c0, k + 1 := c1, k + 2 := c2, k + 3 := c3])
                     (d2[k := c0, k + 1 := c1, k + 2 := c2, k + 3 := c3])"
proof -
  obtain q where k: "k = q * 4" using assms(2) by (auto simp: dvd_def)
  have len: "length d1 = length d2" using assms(1) by (simp add: sameVisible_def)
  let ?e1 = "d1[k := c0, k + 1 := c1, k + 2 := c2, k + 3 := c3]"
  let ?e2 = "d2[k := c0, k + 1 := c1, k + 2 := c2, k + 3 := c3]"
  have "?e1 ! (p * 4 + 3) = ?e2 ! (p * 4 + 3) \<and>
        (?e1 ! (p * 4 + 3) \<noteq> 0 \<longrightarrow>
           ?e1 ! (p * 4) = ?e2 ! (p * 4) \<and> ?e1 ! (p * 4 + 1) = ?e2 ! (p * 4 + 1) \<and>
           ?e1 ! (p * 4 + 2) = ?e2 ! (p * 4 + 2))" if p: "p * 4 + 3 < length d1" for p
  proof (cases "p = q")
    case True
    then show ?thesis using p len k by simp
  next
    case False
    have ne: "p * 4 + a \<noteq> k + b" if "a \<le> 3" "b \<le> 3" for a b
      using False k that by presburger
    have u1: "?e1 ! (p * 4 + a) = d1 ! (p * 4 + a)" if "a \<le> 3" for a
      using ne [OF that, of 0] ne [OF that, of 1] ne [OF that, of 2] ne [OF that, of 3] by simp
    have u2: "?e2 ! (p * 4 + a) = d2 ! (p * 4 + a)" if "a \<le> 3" for a
      using ne [OF that, of 0] ne [OF that, of 1] ne [OF that, of 2] ne [OF that, of 3] by simp
    show ?thesis
      using u1 [of 0] u1 [of 1] u1 [of 2] u1 [of 3] u2 [of 0] u2 [of 1] u2 [of 2] u2 [of 3]
        assms(1) p unfolding sameVisible_def by simp
  qed
  then show ?thesis unfolding sameVisible_def using len by simp
qed

lemma commitFold_rel:
  assumes "sameVisible d1 d2" and "\<forall>x\<in>set nf. 4 dvd fst x"
  shows "sameVisible (fst (fold (commitStep pres) nf (d1, t, n))) (fst (fold (commitStep pres) nf (d2, t, n)))
       \<and> snd (fold (commitStep pres) nf (d1, t, n)) = snd (fold (commitStep pres) nf (d2, t, n))"
  using assms
proof (induction nf arbitrary: d1 d2 t n)
  case Nil
  then show ?case by simp
next
  case (Cons x nf)
  obtain k c0 c1 c2 c3 where x: "x = (k, c0, c1, c2, c3)" by (cases x) auto
  have "sameVisible (d1[k := c0, k + 1 := c1, k + 2 := c2, k + 3 := c3])
                    (d2[k := c0, k + 1 := c1, k + 2 := c2, k + 3 := c3])"
    by (rule sameVisible_update) (use Cons.prems x in auto)
  from Cons.IH [OF this] Cons.prems(2) show ?case by (simp add: x)
qed

lemma sameVisible_valid:
  assumes "sameVisible d1 d2" and "4 dvd i"
  shows "isValid d1 i = isValid d2 i"
proof -
  obtain q where "i = q * 4" using assms(2) by (auto simp: dvd_def)
  then show ?thesis using assms(1) unfolding sameVisible_def isValid_def by auto
qed

lemma sameVisible_addNeighbor:
  assumes "sameVisible d1 d2"
  shows "addNeighbor d1 w h n acc = addNeighbor d2 w h n acc"
proof -
  obtain nx ny where n: "n = (nx, ny)" by (cases n) auto
  obtain r g b c where acc: "acc = (r, g, b, c)" by (cases acc) auto
  define q where "q = nat (ny * int w + nx)"
  show ?thesis
  proof (cases "nx \<ge> 0 \<and> nx < int w \<and> ny \<ge> 0 \<and> ny < int h")
    case False
    then show ?thesis unfolding n acc by auto
  next
    case True
    then have "0 \<le> ny * int w + nx" by simp
    then have idx: "nat ((ny * int w + nx) * 4) = q * 4"
      unfolding q_def by (simp add: nat_mult_distrib)
    have v: "isValid d1 (q * 4) = isValid d2 (q * 4)"
      by (rule sameVisible_valid [OF assms]) simp
    have "d1 ! (q * 4) = d2 ! (q * 4) \<and> d1 ! (q * 4 + 1) = d2 ! (q * 4 + 1) \<and>
          d1 ! (q * 4 + 2) = d2 ! (q * 4 + 2)" if "isValid d1 (q * 4)"
    proof -
      have "q * 4 + 3 < length d1" "d1 ! (q * 4 + 3) \<noteq> 0"
        using that by (auto simp: isValid_def)
      then show ?thesis using assms unfolding sameVisible_def by blast
    qed
    then show ?thesis
      unfolding n acc addNeighbor.simps idx Let_def using v True by auto
  qed
qed

lemma sameVisible_fillColor:
  assumes "sameVisible d1 d2"
  shows "fillColor d1 w h idx = fillColor d2 w h idx"
proof -
  have "addNeighbor d1 w h = addNeighbor d2 w h"
    using sameVisible_addNeighbor [OF assms] by blast
  then show ?thesis by (simp add: fillColor_def)
qed

lemma sameVisible_scanPass:
  assumes "sameVisible d1 d2"
  shows "scanPass d1 w h t = scanPass d2 w h t"
proof -
  have "scanStep d1 w h e nf = scanStep d2 w h e nf" for e nf
    by (cases e) (simp_all add: sameVisible_fillColor [OF assms])
  then have "scanStep d1 w h = scanStep d2 w h" by blast
  then show ?thesis by (simp add: scanPass_def)
qed

lemma sameVisible_pass:
  assumes "sameVisible d1 d2" and "\<forall>i. Some i \<in> set t \<longrightarrow> 4 dvd i"
    and "commitPass pres (scanPass d1 w h t) d1 t = (e1, t1, f1)"
    and "commitPass pres (scanPass d2 w h t) d2 t = (e2, t2, f2)"
  shows "sameVisible e1 e2 \<and> t1 = t2 \<and> f1 = f2"
proof -
  let ?nf = "scanPass d1 w h t"
  have nf: "scanPass d2 w h t = ?nf" using sameVisible_scanPass [OF assms(1)] by simp
  have dv: "\<forall>x\<in>set ?nf. 4 dvd fst x"
  proof
    fix y assume "y \<in> set ?nf"
    then have "fst y \<in> fst ` set ?nf" by (rule imageI)
    then show "4 dvd fst y" unfolding scanPass_keys using assms(2) by simp
  qed
  from commitFold_rel [OF assms(1) dv, of pres t 0] assms(3,4) show ?thesis
    unfolding nf commitPass_def by simp
qed

lemma sameVisible_loop:
  assumes "sameVisible d1 d2" and "\<forall>i. Some i \<in> set t \<longrightarrow> 4 dvd i"
  shows "sameVisible (fst (diffusionLoop w h n pres d1 t r p)) (fst (diffusionLoop w h n pres d2 t r p))
       \<and> snd (diffusionLoop w h n pres d1 t r p) = snd (diffusionLoop w h n pres d2 t r p)"
  using assms
proof (induction "n - p" arbitrary: d1 d2 t r p)
  case 0
  then have "\<not> (r > 0 \<and> p < n)" by simp
  then show ?case using 0 by (simp add: diffusionLoop_stop)
next
  case (Suc k)
  show ?case
  proof (cases "r > 0")
    case False
    then have "\<not> (r > 0 \<and> p < n)" by simp
    then show ?thesis using Suc.prems by (simp add: diffusionLoop_stop)
  next
    case True
    have lt: "p < n" using Suc.hyps(2) by simp
    obtain e1 t1 f1 where c1: "commitPass pres (scanPass d1 w h t) d1 t = (e1, t1, f1)"
      by (cases "commitPass pres (scanPass d1 w h t) d1 t") auto
    obtain e2 t2 f2 where c2: "commitPass pres (scanPass d2 w h t) d2 t = (e2, t2, f2)"
      by (cases "commitPass pres (scanPass d2 w h t) d2 t") auto
    from sameVisible_pass [OF Suc.prems c1 c2]
    have rel: "sameVisible e1 e2" and eq: "t2 = t1" "f2 = f1" by simp_all
    have dv: "\<forall>i. Some i \<in> set t1 \<longrightarrow> 4 dvd i"
      using pass_todo_subset [OF c1] Suc.prems(2) by blast
    show ?thesis
    proof (cases "pres \<or> f1 \<noteq> 0")
      case go: True
      have k: "k = n - (p + 1)" using Suc.hyps(2) by simp
      show ?thesis
        unfolding diffusionLoop_next [OF True lt c1 go]
          diffusionLoop_next [OF True lt c2 [unfolded eq] go]
        by (rule Suc.hyps(1) [OF k rel dv])
    next
      case False
      then have b: "\<not> pres" "f1 = 0" by simp_all
      show ?thesis
        unfolding diffusionLoop_break [OF True lt c1 b]
          diffusionLoop_break [OF True lt c2 [unfolded eq] b]
        using rel by simp
    qed
  qed
qed

lemma sameVisible_init:
  assumes "length data1 = w * h * 4" and "length data2 = w * h * 4"
    and "\<forall>idx\<in>set (pixelIndices w h). \<not> isHole m idx \<longrightarrow> (\<forall>c<4. data1 ! (idx + c) = data2 ! (idx + c))"
  shows "sameVisible (fst (initFill data1 m w h False)) (fst (initFill data2 m w h False))"
proof -
  let ?e1 = "fst (initFill data1 m w h False)" and ?e2 = "fst (initFill data2 m w h False)"
  have "?e1 ! (p * 4 + 3) = ?e2 ! (p * 4 + 3) \<and>
        (?e1 ! (p * 4 + 3) \<noteq> 0 \<longrightarrow>
           ?e1 ! (p * 4) = ?e2 ! (p * 4) \<and> ?e1 ! (p * 4 + 1) = ?e2 ! (p * 4 + 1) \<and>
           ?e1 ! (p * 4 + 2) = ?e2 ! (p * 4 + 2))" if p: "p * 4 + 3 < w * h * 4" for p
  proof -
    have mem: "p * 4 \<in> set (pixelIndices w h)" using p by (auto simp: set_pixelIndices)
    have lt: "p * 4 + a < length data1" "p * 4 + a < length data2" if "a \<le> 3" for a
      using p that assms(1,2) by simp_all
    show ?thesis
    proof (cases "isHole m (p * 4)")
      case True
      have "?e1 ! (p * 4 + 3) = 0" "?e2 ! (p * 4 + 3) = 0"
        using initFill_nth [OF lt(1) [of 3], of m w h False] initFill_nth [OF lt(2) [of 3], of m w h False]
          mem True by auto
      then show ?thesis by simp
    next
      case False
      have no: "\<not> (\<exists>idx\<in>set (pixelIndices w h). isHole m idx \<and> p * 4 + a = idx + 3)" if "a \<le> 3" for a
      proof
        assume "\<exists>idx\<in>set (pixelIndices w h). isHole m idx \<and> p * 4 + a = idx + 3"
        then obtain q where q: "isHole m (q * 4)" "p * 4 + a = q * 4 + 3"
          by (auto simp: set_pixelIndices)
        then have "q = p" using that by presburger
        then show False using q False by simp
      qed
      have u1: "?e1 ! (p * 4 + a) = data1 ! (p * 4 + a)" if "a \<le> 3" for a
        using initFill_nth [OF lt(1) [OF that], of m w h False] no [OF that] by simp
      have u2: "?e2 ! (p * 4 + a) = data2 ! (p * 4 + a)" if "a \<le> 3" for a
        using initFill_nth [OF lt(2) [OF that], of m w h False] no [OF that] by simp
      have ag: "data1 ! (p * 4 + a) = data2 ! (p * 4 + a)" if "a \<le> 3" for a
        using assms(3) mem False that by simp
      show ?thesis
        using u1 [of 0] u1 [of 1] u1 [of 2] u1 [of 3] u2 [of 0] u2 [of 1] u2 [of 2] u2 [of 3]
          ag [of 0] ag [of 1] ag [of 2] ag [of 3] by simp
    qed
  qed
  then show ?thesis
    unfolding sameVisible_def using assms(1,2) by (simp add: initFill_length)
qed

lemma sameVisible_run:
  assumes "length data1 = w * h * 4" and "length data2 = w * h * 4"
    and "\<forall>idx\<in>set (pixelIndices w h). \<not> isHole m idx \<longrightarrow> (\<forall>c<4. data1 ! (idx + c) = data2 ! (idx + c))"
  shows "sameVisible (sharpDiffusion data1 m w h n False) (sharpDiffusion data2 m w h n False)"
proof -
  let ?t = "map Some (filter (isHole m) (pixelIndices w h))"
  obtain e1 t1 where i1: "initFill data1 m w h False = (e1, t1)"
    by (cases "initFill data1 m w h False") auto
  obtain e2 t2 where i2: "initFill data2 m w h False = (e2, t2)"
    by (cases "initFill data2 m w h False") auto
  have t: "t1 = ?t" "t2 = ?t"
    using initFill_todo [of data1 m w h False] initFill_todo [of data2 m w h False] i1 i2 by simp_all
  have rel: "sameVisible e1 e2" using sameVisible_init [OF assms] i1 i2 by simp
  have dv: "\<forall>i. Some i \<in> set ?t \<longrightarrow> 4 dvd i" by (auto simp: set_pixelIndices)
  from sameVisible_loop [OF rel dv, of w h n False "int (length ?t)" 0]
  show ?thesis unfolding sharpDiffusion_def sharpDiffusionRun_def i1 i2 t by simp
qed

lemma sharpDiffusion_length: "length (sharpDiffusion d m w h n False) = length d"
proof -
  obtain d1 t1 r1 p1 where r: "sharpDiffusionRun d m w h n False = (d1, t1, r1, p1)"
    by (cases "sharpDiffusionRun d m w h n False") auto
  show ?thesis using spaceFill_invariant [OF r] r by (simp add: sharpDiffusion_def)
qed

text \<open>
  Claim C5, as amended. Under SpaceFill, two images of the size of the grid that agree on
  every keep pixel give outputs that agree on the alpha of every pixel and on R, G, B of
  every keep pixel and of every hole pixel whose output alpha is not 0 (every hole pixel
  the fill has reached). Nothing is said of R, G, B of a hole pixel left at alpha 0.
\<close>

theorem spaceFill_hides_hole_content:
  assumes "length data1 = width * height * 4" and "length data2 = width * height * 4"
    and "\<forall>idx\<in>set (pixelIndices width height). \<not> isHole mData idx \<longrightarrow>
           (\<forall>c<4. data1 ! (idx + c) = data2 ! (idx + c))"
    and "p < width * height"
  shows "sharpDiffusion data1 mData width height maxPasses False ! (p * 4 + 3)
           = sharpDiffusion data2 mData width height maxPasses False ! (p * 4 + 3)
       \<and> (\<not> isHole mData (p * 4) \<or> sharpDiffusion data1 mData width height maxPasses False ! (p * 4 + 3) \<noteq> 0
            \<longrightarrow> (\<forall>c<3. sharpDiffusion data1 mData width height maxPasses False ! (p * 4 + c)
                        = sharpDiffusion data2 mData width height maxPasses False ! (p * 4 + c)))"
proof -
  let ?o1 = "sharpDiffusion data1 mData width height maxPasses False"
  let ?o2 = "sharpDiffusion data2 mData width height maxPasses False"
  have rel: "sameVisible ?o1 ?o2" by (rule sameVisible_run [OF assms(1-3)])
  have lt: "p * 4 + 3 < length ?o1" using assms(1,4) by (simp add: sharpDiffusion_length)
  have alpha: "?o1 ! (p * 4 + 3) = ?o2 ! (p * 4 + 3)"
    using rel lt unfolding sameVisible_def by blast
  have filled: "?o1 ! (p * 4 + c) = ?o2 ! (p * 4 + c)" if "?o1 ! (p * 4 + 3) \<noteq> 0" "c < 3" for c
  proof -
    have "?o1 ! (p * 4) = ?o2 ! (p * 4) \<and> ?o1 ! (p * 4 + 1) = ?o2 ! (p * 4 + 1) \<and>
          ?o1 ! (p * 4 + 2) = ?o2 ! (p * 4 + 2)"
      using rel lt that(1) unfolding sameVisible_def by blast
    moreover have "c = 0 \<or> c = 1 \<or> c = 2" using that(2) by auto
    ultimately show ?thesis by auto
  qed
  have keep: "?o1 ! (p * 4 + c) = ?o2 ! (p * 4 + c)" if k: "\<not> isHole mData (p * 4)" and c: "c < 3" for c
  proof -
    have mem: "p * 4 \<in> set (pixelIndices width height)" using assms(4) by (auto simp: set_pixelIndices)
    have "data1 ! (p * 4 + c) = data2 ! (p * 4 + c)" using assms(3) mem k c by simp
    then show ?thesis using sharpDiffusion_keep [OF k, of c] c by simp
  qed
  show ?thesis using alpha filled keep by blast
qed

theorem spaceFill_hides_hole_content_witness:
  "sharpDiffusion [1, 2, 3, 255, 9, 9, 9, 255] [0, 0, 0, 255, 0, 0, 0, 0] 2 1 2 False ! (1 * 4 + 3)
     = sharpDiffusion [1, 2, 3, 255, 7, 8, 9, 100] [0, 0, 0, 255, 0, 0, 0, 0] 2 1 2 False ! (1 * 4 + 3)
   \<and> sharpDiffusion [1, 2, 3, 255, 9, 9, 9, 255] [0, 0, 0, 255, 0, 0, 0, 0] 2 1 2 False ! (1 * 4 + 0)
     = sharpDiffusion [1, 2, 3, 255, 7, 8, 9, 100] [0, 0, 0, 255, 0, 0, 0, 0] 2 1 2 False ! (1 * 4 + 0)"
proof -
  have l1: "length [1, 2, 3, 255, 9, 9, 9, 255 :: byte] = 2 * 1 * 4" by simp
  have l2: "length [1, 2, 3, 255, 7, 8, 9, 100 :: byte] = 2 * 1 * 4" by simp
  have ag: "\<forall>idx\<in>set (pixelIndices 2 1). \<not> isHole [0, 0, 0, 255, 0, 0, 0, 0] idx \<longrightarrow>
           (\<forall>c<4. [1, 2, 3, 255, 9, 9, 9, 255 :: byte] ! (idx + c) = [1, 2, 3, 255, 7, 8, 9, 100] ! (idx + c))"
  proof (intro ballI impI allI)
    fix idx c :: nat
    assume "idx \<in> set (pixelIndices 2 1)" and k: "\<not> isHole [0, 0, 0, 255, 0, 0, 0, 0] idx" and c: "c < 4"
    then have "idx = 0 \<or> idx = 4" by (auto simp: set_pixelIndices)
    moreover have "isHole [0, 0, 0, 255, 0, 0, 0, 0] 4" by code_simp
    ultimately have "idx = 0" using k by auto
    moreover have "c = 0 \<or> c = 1 \<or> c = 2 \<or> c = 3" using c by auto
    ultimately show "[1, 2, 3, 255, 9, 9, 9, 255 :: byte] ! (idx + c) = [1, 2, 3, 255, 7, 8, 9, 100] ! (idx + c)"
      by auto
  qed
  have p: "(1::nat) < 2 * 1" by simp
  have nz: "sharpDiffusion [1, 2, 3, 255, 9, 9, 9, 255] [0, 0, 0, 255, 0, 0, 0, 0] 2 1 2 False ! (1 * 4 + 3) \<noteq> 0"
    by code_simp
  have z: "(0::nat) < 3" by simp
  from spaceFill_hides_hole_content [OF l1 l2 ag p, of 2] nz z show ?thesis by blast
qed

text \<open>
  The claim as stated fails where the fill does not reach a hole pixel: only its alpha
  is cleared, so its R, G, B are still those of the input. In a buffer that is all hole,
  with the budget of chart mode, nothing is filled and the two outputs differ in the
  first pixel; with a budget of one pass the third pixel of a row keep, hole, hole is
  not reached, and the two outputs differ there.
\<close>

theorem spaceFill_residue_counterexample:
  "sharpDiffusion [1, 2, 3, 255, 4, 5, 6, 255] [0, 0, 0, 0, 0, 0, 0, 0] 2 1 (max 2 1) False
     = [1, 2, 3, 0, 4, 5, 6, 0]
   \<and> sharpDiffusion [7, 8, 9, 255, 4, 5, 6, 255] [0, 0, 0, 0, 0, 0, 0, 0] 2 1 (max 2 1) False
     = [7, 8, 9, 0, 4, 5, 6, 0]
   \<and> [1, 2, 3, 0, 4, 5, 6, 0] \<noteq> [7, 8, 9, 0, 4, 5, 6, 0 :: byte]
   \<and> sharpDiffusion [1, 2, 3, 255, 9, 9, 9, 255, 4, 4, 4, 255] [0, 0, 0, 255, 0, 0, 0, 0, 0, 0, 0, 0] 3 1 1 False
     = [1, 2, 3, 255, 1, 2, 3, 255, 4, 4, 4, 0]
   \<and> sharpDiffusion [1, 2, 3, 255, 9, 9, 9, 255, 7, 7, 7, 255] [0, 0, 0, 255, 0, 0, 0, 0, 0, 0, 0, 0] 3 1 1 False
     = [1, 2, 3, 255, 1, 2, 3, 255, 7, 7, 7, 0]
   \<and> [1, 2, 3, 255, 1, 2, 3, 255, 4, 4, 4, 0] \<noteq> [1, 2, 3, 255, 1, 2, 3, 255, 7, 7, 7, 0 :: byte]"
  by code_simp

subsection \<open>Propagation from a valid keep pixel\<close>

lemma reachesKeep_keep_exists:
  "reachesKeep m w h p \<Longrightarrow> \<exists>q<w * h. \<not> isHole m (q * 4)"
  by (induction rule: reachesKeep.induct) auto

lemma pixel_coords:
  assumes "x < (w::nat)"
  shows "(((y * w + x) * 4) div 4) mod w = x" and "(((y * w + x) * 4) div 4) div w = (y::nat)"
  using assms by simp_all

lemma fillColor_reached:
  assumes cov: "coveredWithin e w h q k" and len: "length e = w * h * 4" and q: "q < w * h"
    and xy: "x < w" "y < h"
    and near: "\<bar>int x - int (q mod w)\<bar> \<le> int k + 1" "\<bar>int y - int (q div w)\<bar> \<le> int k + 1"
    and zero: "e ! ((y * w + x) * 4 + 3) = 0"
  shows "fillColor e w h ((y * w + x) * 4) \<noteq> None"
proof -
  define qx where "qx = q mod w"
  define qy where "qy = q div w"
  have qb: "qx < w" "qy < h" using grid_coords [OF q] by (simp_all add: qx_def qy_def)
  define x' where "x' = (if x < qx then x + 1 else if qx < x then x - 1 else x)"
  define y' where "y' = (if y < qy then y + 1 else if qy < y then y - 1 else y)"
  have b': "x' < w" "y' < h" using xy qb by (auto simp: x'_def y'_def)
  have n': "\<bar>int x' - int qx\<bar> \<le> int k" "\<bar>int y' - int qy\<bar> \<le> int k"
    using near by (auto simp: x'_def y'_def qx_def qy_def)
  have "e ! ((y' * w + x') * 4 + 3) \<noteq> 0"
    using cov b' n' unfolding coveredWithin_def qx_def qy_def by blast
  moreover have "(y' * w + x') * 4 + 3 < length e"
    using pixel_in_grid [OF b'] len by simp
  ultimately have "isValid e ((y' * w + x') * 4)" by (simp add: isValid_def word_greater_zero_iff)
  then have v: "validAt e w h (int x', int y')" using b' by (simp add: validAt_nat)
  have ne: "(x', y') \<noteq> (x, y)"
  proof
    assume "(x', y') = (x, y)"
    then have "x = qx" "y = qy" by (auto simp: x'_def y'_def split: if_splits)
    then have "\<bar>int x - int (q mod w)\<bar> \<le> int k \<and> \<bar>int y - int (q div w)\<bar> \<le> int k"
      by (simp add: qx_def qy_def)
    then have "e ! ((y * w + x) * 4 + 3) \<noteq> 0"
      using cov xy unfolding coveredWithin_def by blast
    then show False using zero by simp
  qed
  have "(int x', int y') \<in> set (neighbors (int x) (int y))"
    using ne by (auto simp: neighbors_def x'_def y'_def split: if_splits)
  then have "\<exists>n\<in>set (neighbors (int x) (int y)). validAt e w h n" using v by blast
  then show ?thesis
    unfolding fillColor_None_iff pixel_coords [OF xy(1)] by blast
qed

lemma coveredWithin_all:
  assumes "coveredWithin e w h q k" and "max w h \<le> k" and "q < w * h" and "p < w * h"
  shows "e ! (p * 4 + 3) \<noteq> 0"
proof -
  note g = grid_coords [OF assms(4)] and gq = grid_coords [OF assms(3)]
  have "w \<le> k" "h \<le> k" using assms(2) by simp_all
  then have "\<bar>int (p mod w) - int (q mod w)\<bar> \<le> int k" "\<bar>int (p div w) - int (q div w)\<bar> \<le> int k"
    using g(1,2) gq(1,2) by linarith+
  then have "e ! (((p div w) * w + p mod w) * 4 + 3) \<noteq> 0"
    using assms(1) g(1,2) unfolding coveredWithin_def by blast
  then show ?thesis unfolding g(3) .
qed

lemma pass_alpha:
  assumes c: "commitPass pres (scanPass e w h t) e t = (e', t', fc)"
    and dv: "\<forall>i. Some i \<in> set t \<longrightarrow> 4 dvd i" and lt: "p * 4 + 3 < length e"
  shows "Some (p * 4) \<in> set t \<and> fillColor e w h (p * 4) \<noteq> None \<Longrightarrow> e' ! (p * 4 + 3) = 255"
    and "\<not> (Some (p * 4) \<in> set t \<and> fillColor e w h (p * 4) \<noteq> None) \<Longrightarrow> e' ! (p * 4 + 3) = e ! (p * 4 + 3)"
proof -
  assume a: "Some (p * 4) \<in> set t \<and> fillColor e w h (p * 4) \<noteq> None"
  then obtain col where f: "fillColor e w h (p * 4) = Some col" by blast
  obtain c0 c1 c2 c3 where col: "col = (c0, c1, c2, c3)" by (cases col) auto
  have m: "Some (p * 4) \<in> set t" using a by blast
  have "e' ! (p * 4 + 3) = c3" using pass_written [OF c dv m f [unfolded col] lt] by blast
  then show "e' ! (p * 4 + 3) = 255" using fillColor_alpha [OF f [unfolded col]] by simp
next
  assume "\<not> (Some (p * 4) \<in> set t \<and> fillColor e w h (p * 4) \<noteq> None)"
  then have k: "Some (p * 4) \<notin> set t \<or> fillColor e w h (p * 4) = None" by blast
  show "e' ! (p * 4 + 3) = e ! (p * 4 + 3)"
    by (rule pass_keep [OF c dv _ k]) simp_all
qed

lemma cover_step:
  assumes c: "commitPass False (scanPass e w h t) e t = (e', t', fc)"
    and len: "length e = w * h * 4"
    and dist: "distinct (pending t)" and r: "r = int (length (pending t))"
    and dv: "\<forall>i\<in>set (pending t). 4 dvd i"
    and pend: "\<forall>p<w * h. e ! (p * 4 + 3) = 0 \<longrightarrow> p * 4 \<in> set (pending t)"
    and hole: "\<forall>p<w * h. isHole m (p * 4) \<longrightarrow> e ! (p * 4 + 3) = 0 \<or> e ! (p * 4 + 3) = 255"
    and cov: "coveredWithin e w h q k" and q: "q < w * h"
  shows "length e' = w * h * 4 \<and> distinct (pending t') \<and> r - int fc = int (length (pending t'))
       \<and> (\<forall>i\<in>set (pending t'). 4 dvd i)
       \<and> (\<forall>p<w * h. e' ! (p * 4 + 3) = 0 \<longrightarrow> p * 4 \<in> set (pending t'))
       \<and> (\<forall>p<w * h. isHole m (p * 4) \<longrightarrow> e' ! (p * 4 + 3) = 0 \<or> e' ! (p * 4 + 3) = 255)
       \<and> coveredWithin e' w h q (k + 1)"
proof -
  note pp = pass_pending [OF c dist]
  have dv': "\<forall>i. Some i \<in> set t \<longrightarrow> 4 dvd i" using dv by (simp add: set_pending)
  define F where "F = (\<lambda>p. Some (p * 4) \<in> set t \<and> fillColor e w h (p * 4) \<noteq> None)"
  have alpha: "e' ! (p * 4 + 3) = (if F p then 255 else e ! (p * 4 + 3))" if "p < w * h" for p
  proof -
    have lt: "p * 4 + 3 < length e" using that len by simp
    show ?thesis
    proof (cases "F p")
      case True
      then have "Some (p * 4) \<in> set t \<and> fillColor e w h (p * 4) \<noteq> None" unfolding F_def .
      then have "e' ! (p * 4 + 3) = 255" by (rule pass_alpha(1) [OF c dv' lt])
      then show ?thesis using True by simp
    next
      case False
      then have "\<not> (Some (p * 4) \<in> set t \<and> fillColor e w h (p * 4) \<noteq> None)" unfolding F_def .
      then have "e' ! (p * 4 + 3) = e ! (p * 4 + 3)" by (rule pass_alpha(2) [OF c dv' lt])
      then show ?thesis using False by simp
    qed
  qed
  have Fpend: "p * 4 \<in> set (pending t')" if "p * 4 \<in> set (pending t)" "\<not> F p" for p
  proof -
    have "fillColor e w h (p * 4) = None" using that unfolding F_def set_pending by blast
    then show ?thesis unfolding pp(2) using that(1) by simp
  qed
  have Fyes: "F p" if "p * 4 \<in> set (pending t)" "fillColor e w h (p * 4) \<noteq> None" for p
    using that unfolding F_def set_pending by blast
  have 1: "length e' = w * h * 4" using pass_length [OF c] len by simp
  have 2: "r - int fc = int (length (pending t'))" using pp(3) r by simp
  have 3: "\<forall>i\<in>set (pending t'). 4 dvd i" using dv unfolding pp(2) by simp
  have 4: "\<forall>p<w * h. e' ! (p * 4 + 3) = 0 \<longrightarrow> p * 4 \<in> set (pending t')"
  proof (intro allI impI)
    fix p assume p: "p < w * h" and z: "e' ! (p * 4 + 3) = 0"
    have no: "\<not> F p" using alpha [OF p] z by auto
    then have "e ! (p * 4 + 3) = 0" using alpha [OF p] z by simp
    then have "p * 4 \<in> set (pending t)" using pend p by simp
    then show "p * 4 \<in> set (pending t')" using no by (rule Fpend)
  qed
  have 5: "\<forall>p<w * h. isHole m (p * 4) \<longrightarrow> e' ! (p * 4 + 3) = 0 \<or> e' ! (p * 4 + 3) = 255"
    using alpha hole by simp
  have 6: "coveredWithin e' w h q (k + 1)"
    unfolding coveredWithin_def
  proof (intro allI impI)
    fix x y assume xy: "x < w" "y < h"
      and near: "\<bar>int x - int (q mod w)\<bar> \<le> int (k + 1) \<and> \<bar>int y - int (q div w)\<bar> \<le> int (k + 1)"
    let ?p = "y * w + x"
    have p: "?p < w * h" using xy by (rule pixel_in_grid)
    show "e' ! (?p * 4 + 3) \<noteq> 0"
    proof (cases "e ! (?p * 4 + 3) = 0")
      case True
      then have "?p * 4 \<in> set (pending t)" using pend p by blast
      moreover have "fillColor e w h (?p * 4) \<noteq> None"
        by (rule fillColor_reached [OF cov len q xy _ _ True]) (use near in simp_all)
      ultimately have "F ?p" by (rule Fyes)
      then show ?thesis using alpha [OF p] by simp
    next
      case False
      then show ?thesis using alpha [OF p] by simp
    qed
  qed
  show ?thesis using 1 pp(1) 2 3 4 5 6 by blast
qed

lemma coveredWithin_idle:
  assumes idle: "scanPass e w h t = []"
    and len: "length e = w * h * 4"
    and pend: "\<forall>p<w * h. e ! (p * 4 + 3) = 0 \<longrightarrow> p * 4 \<in> set (pending t)"
    and cov: "coveredWithin e w h q 0" and q: "q < w * h"
  shows "coveredWithin e w h q k"
proof (induction k)
  case 0
  show ?case by (rule cov)
next
  case (Suc k)
  show ?case unfolding coveredWithin_def
  proof (intro allI impI)
    fix x y assume xy: "x < w" "y < h"
      and near: "\<bar>int x - int (q mod w)\<bar> \<le> int (Suc k) \<and> \<bar>int y - int (q div w)\<bar> \<le> int (Suc k)"
    let ?p = "y * w + x"
    have p: "?p < w * h" using xy by (rule pixel_in_grid)
    show "e ! (?p * 4 + 3) \<noteq> 0"
    proof
      assume z: "e ! (?p * 4 + 3) = 0"
      then have "?p * 4 \<in> set (pending t)" using pend p by blast
      then have "Some (?p * 4) \<in> set t" unfolding set_pending by blast
      then have "fillColor e w h (?p * 4) = None" using idle unfolding scanPass_Nil_iff by blast
      moreover have "fillColor e w h (?p * 4) \<noteq> None"
        by (rule fillColor_reached [OF Suc len q xy _ _ z]) (use near in simp_all)
      ultimately show False by simp
    qed
  qed
qed

lemma coveredWithin_mono: "coveredWithin e w h q k \<Longrightarrow> j \<le> k \<Longrightarrow> coveredWithin e w h q j"
  unfolding coveredWithin_def by (meson of_nat_le_iff order_trans)

lemma spaceFill_covers:
  assumes len: "length data = w * h * 4" and budget: "max w h \<le> n"
    and keepvalid: "\<forall>q<w * h. \<not> isHole m (q * 4) \<longrightarrow> data ! (q * 4 + 3) \<noteq> 0"
    and q: "q < w * h" "\<not> isHole m (q * 4)"
    and p: "p < w * h"
  shows "sharpDiffusion data m w h n False ! (p * 4 + 3) \<noteq> 0 \<and>
         (isHole m (p * 4) \<longrightarrow> sharpDiffusion data m w h n False ! (p * 4 + 3) = 255)"
proof -
  obtain d0 t0 where init: "initFill data m w h False = (d0, t0)"
    by (cases "initFill data m w h False") auto
  have t0: "t0 = map Some (filter (isHole m) (pixelIndices w h))"
    using initFill_todo [of data m w h False] init by simp
  have d0: "d0 = fst (initFill data m w h False)" using init by simp
  have a0: "d0 ! (p * 4 + 3) = (if isHole m (p * 4) then 0 else data ! (p * 4 + 3))" if "p < w * h" for p
  proof -
    have "p * 4 + 3 < length data" using that len by simp
    moreover have "p * 4 \<in> set (pixelIndices w h)" using that by (auto simp: set_pixelIndices)
    moreover have "(\<exists>idx\<in>set (pixelIndices w h). isHole m idx \<and> p * 4 + 3 = idx + 3) \<longleftrightarrow> isHole m (p * 4)"
      using calculation(2) by auto
    ultimately show ?thesis unfolding d0 by (simp add: initFill_nth)
  qed
  define I where "I = (\<lambda>(e::byte list) (t::nat option list) (r::int) (k::nat).
      length e = w * h * 4 \<and> distinct (pending t) \<and> r = int (length (pending t))
       \<and> (\<forall>i\<in>set (pending t). 4 dvd i)
       \<and> (\<forall>p<w * h. e ! (p * 4 + 3) = 0 \<longrightarrow> p * 4 \<in> set (pending t))
       \<and> (\<forall>p<w * h. isHole m (p * 4) \<longrightarrow> e ! (p * 4 + 3) = 0 \<or> e ! (p * 4 + 3) = 255)
       \<and> coveredWithin e w h q k)"
  have cov0: "coveredWithin d0 w h q 0"
    unfolding coveredWithin_def
  proof (intro allI impI)
    fix x y assume xy: "x < w" "y < h"
      and near: "\<bar>int x - int (q mod w)\<bar> \<le> int 0 \<and> \<bar>int y - int (q div w)\<bar> \<le> int 0"
    then have "x = q mod w" "y = q div w" by simp_all
    then have "y * w + x = q" by simp
    then show "d0 ! ((y * w + x) * 4 + 3) \<noteq> 0" using a0 [OF q(1)] q keepvalid by simp
  qed
  have pend0: "\<forall>p<w * h. d0 ! (p * 4 + 3) = 0 \<longrightarrow> p * 4 \<in> set (pending t0)"
  proof (intro allI impI)
    fix p assume p: "p < w * h" and z: "d0 ! (p * 4 + 3) = 0"
    then have "isHole m (p * 4)" using a0 [OF p] keepvalid by (auto split: if_splits)
    moreover have "p * 4 \<in> set (pixelIndices w h)" using p by (auto simp: set_pixelIndices)
    ultimately show "p * 4 \<in> set (pending t0)" unfolding t0 by (simp add: pending_map_Some)
  qed
  have pt0: "pending t0 = filter (isHole m) (pixelIndices w h)"
    unfolding t0 by (rule pending_map_Some)
  have i1: "length d0 = w * h * 4" unfolding d0 using len by (simp add: initFill_length)
  have i2: "distinct (pending t0)" unfolding pt0 by (simp add: distinct_pixelIndices)
  have i3: "int (length t0) = int (length (pending t0))" unfolding pt0 by (simp add: t0)
  have i4: "\<forall>i\<in>set (pending t0). 4 dvd i" unfolding pt0 by (auto simp: set_pixelIndices)
  have i5: "\<forall>p<w * h. isHole m (p * 4) \<longrightarrow> d0 ! (p * 4 + 3) = 0 \<or> d0 ! (p * 4 + 3) = 255"
    using a0 by simp
  have I0: "I d0 t0 (int (length t0)) 0"
    unfolding I_def using i1 i2 i3 i4 pend0 i5 cov0 by blast
  have "case diffusionLoop w h n False d0 t0 (int (length t0)) 0 of
          (d', t', r', p') \<Rightarrow> I d' t' r' p' \<and> (r' \<le> 0 \<or> n \<le> p' \<or> (\<not> False \<and> scanPass d' w h t' = []))"
  proof (rule diffusionLoop_rule [where I = I, OF I0])
    fix e t r k e' t' fc
    assume I: "I e t r k" and c: "commitPass False (scanPass e w h t) e t = (e', t', fc)"
    have Ic: "length e = w * h * 4" "distinct (pending t)" "r = int (length (pending t))"
      "\<forall>i\<in>set (pending t). 4 dvd i"
      "\<forall>p<w * h. e ! (p * 4 + 3) = 0 \<longrightarrow> p * 4 \<in> set (pending t)"
      "\<forall>p<w * h. isHole m (p * 4) \<longrightarrow> e ! (p * 4 + 3) = 0 \<or> e ! (p * 4 + 3) = 255"
      "coveredWithin e w h q k"
      using I unfolding I_def by simp_all
    from cover_step [OF c Ic q(1)]
    show "I e' t' (if False then r else r - int fc) (k + 1)" unfolding I_def by simp
  qed
  moreover obtain d1 t1 r1 p1 where run: "diffusionLoop w h n False d0 t0 (int (length t0)) 0 = (d1, t1, r1, p1)"
    by (cases "diffusionLoop w h n False d0 t0 (int (length t0)) 0") auto
  ultimately have I1: "I d1 t1 r1 p1" and fin: "r1 \<le> 0 \<or> n \<le> p1 \<or> scanPass d1 w h t1 = []"
    by simp_all
  have out: "sharpDiffusion data m w h n False = d1"
    by (simp add: sharpDiffusion_def sharpDiffusionRun_def init run)
  have J: "length d1 = w * h * 4" "r1 = int (length (pending t1))"
    "\<forall>p<w * h. d1 ! (p * 4 + 3) = 0 \<longrightarrow> p * 4 \<in> set (pending t1)"
    "\<forall>p<w * h. isHole m (p * 4) \<longrightarrow> d1 ! (p * 4 + 3) = 0 \<or> d1 ! (p * 4 + 3) = 255"
    "coveredWithin d1 w h q p1"
    using I1 unfolding I_def by simp_all
  have nz: "d1 ! (p * 4 + 3) \<noteq> 0"
  proof -
    consider "r1 \<le> 0" | "n \<le> p1" | "scanPass d1 w h t1 = []" using fin by blast
    then show ?thesis
    proof cases
      case 1
      then have "pending t1 = []" using J(2) by simp
      then show ?thesis using J(3) p by auto
    next
      case 2
      have "max w h \<le> p1" using 2 budget by simp
      with J(5) show ?thesis by (rule coveredWithin_all [OF _ _ q(1) p])
    next
      case 3
      have "coveredWithin d1 w h q 0"
        using J(5) by (rule coveredWithin_mono) simp
      with 3 J(1) J(3) have "coveredWithin d1 w h q (max w h)"
        by (rule coveredWithin_idle [OF _ _ _ _ q(1)])
      then show ?thesis by (rule coveredWithin_all [OF _ _ q(1) p]) simp
    qed
  qed
  moreover have "isHole m (p * 4) \<longrightarrow> d1 ! (p * 4 + 3) = 0 \<or> d1 ! (p * 4 + 3) = 255"
    using J(4) p by blast
  ultimately show ?thesis unfolding out by blast
qed

text \<open>
  Claim C2, as amended. In chart mode (SpaceFill on a buffer of the size of the grid with
  a budget of at least \<open>max(width, height)\<close> passes), if every keep pixel of the image
  has a non-zero alpha and every hole pixel is connected through a chain of 8-neighbour
  hole pixels to a keep pixel, then after the fill every hole pixel has alpha 255.
\<close>

theorem chart_fill_opaque:
  assumes "length data = width * height * 4"
    and "max width height \<le> maxPasses"
    and "\<forall>q<width * height. \<not> isHole mData (q * 4) \<longrightarrow> data ! (q * 4 + 3) \<noteq> 0"
    and "\<forall>p<width * height. isHole mData (p * 4) \<longrightarrow> reachesKeep mData width height p"
    and "p < width * height" and "isHole mData (p * 4)"
  shows "sharpDiffusion data mData width height maxPasses False ! (p * 4 + 3) = 255"
proof -
  have "reachesKeep mData width height p" using assms(4,5,6) by simp
  then obtain q where q: "q < width * height" "\<not> isHole mData (q * 4)"
    using reachesKeep_keep_exists by blast
  from spaceFill_covers [OF assms(1,2,3) q assms(5)] assms(6) show ?thesis by simp
qed

theorem chart_fill_opaque_witness:
  "sharpDiffusion [1, 2, 3, 255, 9, 9, 9, 255] [0, 0, 0, 255, 0, 0, 0, 0] 2 1 (max 2 1) False ! (1 * 4 + 3) = 255"
proof -
  let ?d = "[1, 2, 3, 255, 9, 9, 9, 255] :: byte list"
  let ?m = "[0, 0, 0, 255, 0, 0, 0, 0] :: byte list"
  have hole: "isHole ?m (1 * 4)" and keep: "\<not> isHole ?m (0 * 4)" by (simp_all add: isHole_def)
  have len: "length ?d = 2 * 1 * 4" by simp
  have bud: "max 2 1 \<le> max 2 (1::nat)" by simp
  have two: "q = 0 \<or> q = 1" if "q < 2 * 1" for q :: nat using that by auto
  have kv: "\<forall>q<2 * 1. \<not> isHole ?m (q * 4) \<longrightarrow> ?d ! (q * 4 + 3) \<noteq> 0"
  proof (intro allI impI)
    fix q :: nat assume "q < 2 * 1" and k: "\<not> isHole ?m (q * 4)"
    then have "q = 0" using two [of q] hole by auto
    then show "?d ! (q * 4 + 3) \<noteq> 0" by simp
  qed
  have adj: "adjacent8 2 1 0" by (simp add: adjacent8_def)
  have reach: "reachesKeep ?m 2 1 1"
    by (rule reachesKeep.keep_neighbour [where q = 0]) (use adj keep in simp_all)
  have rk: "\<forall>p<2 * 1. isHole ?m (p * 4) \<longrightarrow> reachesKeep ?m 2 1 p"
  proof (intro allI impI)
    fix p :: nat assume "p < 2 * 1" and "isHole ?m (p * 4)"
    then have "p = 1" using two [of p] keep by auto
    then show "reachesKeep ?m 2 1 p" using reach by simp
  qed
  have p: "(1::nat) < 2 * 1" by simp
  show ?thesis by (rule chart_fill_opaque [OF len bud kv rk p hole])
qed

text \<open>
  The claim as stated fails on an image with a transparent keep pixel: a neighbour counts
  only when its alpha is above 0, so a keep pixel of alpha 0 never seeds the fill. Here
  the hole pixel touches the only keep pixel, which is transparent, and stays at alpha 0.
\<close>

theorem chart_fill_transparent_keep_counterexample:
  "\<not> isHole [0, 0, 0, 255, 0, 0, 0, 0] (0 * 4) \<and> isHole [0, 0, 0, 255, 0, 0, 0, 0] (1 * 4)
   \<and> reachesKeep [0, 0, 0, 255, 0, 0, 0, 0] 2 1 1
   \<and> sharpDiffusion [10, 20, 30, 0, 9, 9, 9, 255] [0, 0, 0, 255, 0, 0, 0, 0] 2 1 (max 2 1) False ! (1 * 4 + 3) \<noteq> 255"
proof -
  let ?m = "[0, 0, 0, 255, 0, 0, 0, 0] :: byte list"
  have hole: "isHole ?m (1 * 4)" and keep: "\<not> isHole ?m (0 * 4)" by (simp_all add: isHole_def)
  have adj: "adjacent8 2 1 0" by (simp add: adjacent8_def)
  have reach: "reachesKeep ?m 2 1 1"
    by (rule reachesKeep.keep_neighbour [where q = 0]) (use adj keep in simp_all)
  have "sharpDiffusion [10, 20, 30, 0, 9, 9, 9, 255] ?m 2 1 (max 2 1) False ! (1 * 4 + 3) \<noteq> 255"
    by code_simp
  with hole keep reach show ?thesis by blast
qed

subsection \<open>The service on any pair of image and mask\<close>




section \<open>Properties of the service\<close>







end
